theory Spec2Isabelle
  imports Main
begin

section \<open>Data model of protosh (src/main.c)\<close>

text \<open>
  Modelled from the spec: \<open>struct command\<close> and \<open>struct commands\<close> are used by main.c
  (\<open>cmd->argc\<close>, \<open>cmd->argv[i]\<close>) and declared nowhere in it. A command is an ordered
  sequence of argument strings, program name first, with a derived count; a pipeline is
  an ordered sequence of commands.
\<close>

type_synonym command = "string list"
type_synonym commands = "command list"

definition argc :: "command \<Rightarrow> int" where
  "argc cmd = int (length cmd)"

text \<open>
  C strings obtained from \<open>strdup\<close> live in a store of buffers. An address is the
  position of the buffer in the store; a freed buffer stays in the store as \<open>None\<close>,
  and the allocator hands out a buffer that is not in the store yet. A \<open>char *\<close> is
  \<open>None\<close> (the null pointer) or \<open>Some\<close> address.
\<close>

type_synonym addr = nat
type_synonym ptr = "addr option"

datatype event =
    Out string
  | Err string
  | Perror string
  | Spawn "string list"
  | Chdir string

text \<open>
  The process state: the store of string buffers, the globals of main.c (\<open>history\<close>,
  \<open>history_len\<close>, \<open>parent_cmd\<close>, \<open>parent_cmds\<close>, \<open>temp_line\<close>), what the process
  has written or asked of the operating system so far, and the number of allocation
  requests made so far. The global \<open>input\<close> of main.c is never read or written.
  \<open>history\<close> is the null pointer or an array of \<open>char *\<close>.
\<close>

record shell =
  heap :: "string option list"
  history :: "ptr list option"
  history_len :: int
  parent_cmd :: "command option"
  parent_cmds :: "commands option"
  temp_line :: ptr
  trace :: "event list"
  allocs :: nat

datatype fault =
    IndexOutOfRange | NullDeref | UseAfterFree | InvalidFree | IntegerOverflow | UndefinedCall

text \<open>
  A call returns a value, or ends the process through \<open>exit\<close> with a status, or
  performs an access that C leaves undefined.
\<close>

datatype 'a result = Ret 'a | Exit int | Fault fault

definition EXIT_SUCCESS :: int where "EXIT_SUCCESS = 0"
definition EXIT_FAILURE :: int where "EXIT_FAILURE = 1"

text \<open>
  What main.c uses and does not define, and what the operating system decides, are
  parameters: the macro \<open>HISTORY_MAXITEMS\<close>; whether the k-th allocation request of the
  process fails (\<open>oom\<close>); whether \<open>chdir\<close> and \<open>fork\<close> succeed; the functions
  \<open>parse_commands_with_pipes\<close>, from the text of a line to a pipeline, and
  \<open>exec_commands\<close>, which runs a pipeline in a state of the process.
\<close>

record env =
  HISTORY_MAXITEMS :: nat
  oom :: "nat \<Rightarrow> bool"
  chdir_ok :: "string \<Rightarrow> bool"
  fork_ok :: "string list \<Rightarrow> bool"
  parse_commands_with_pipes :: "string \<Rightarrow> commands"
  exec_commands :: "commands \<Rightarrow> shell \<Rightarrow> int result \<times> shell"

definition init_shell :: shell where
  "init_shell = \<lparr>heap = [], history = None, history_len = 0, parent_cmd = None,
     parent_cmds = None, temp_line = None, trace = [], allocs = 0\<rparr>"

definition emit :: "event \<Rightarrow> shell \<Rightarrow> shell" where
  "emit e s = s\<lparr>trace := trace s @ [e]\<rparr>"

text \<open>
  The conversion of a wider integer to int keeps the low 32 bits, read as two's
  complement: \<open>(int) loffset\<close> in \<open>protosh_history\<close>, and the initialisation of the int
  \<open>space_to_move\<close> from a \<open>size_t\<close> in \<open>add_to_history\<close>. Pointers are 8 bytes wide
  and \<open>long\<close> is 64 bits wide.
\<close>

definition int_of_long :: "int \<Rightarrow> int" where
  "int_of_long l = (l + 2 ^ 31) mod 2 ^ 32 - 2 ^ 31"

definition sizeof_ptr :: int where "sizeof_ptr = 8"

section \<open>The C library calls main.c makes on strings\<close>

definition strdup :: "env \<Rightarrow> string \<Rightarrow> shell \<Rightarrow> ptr \<times> shell" where
  "strdup E txt s =
     (if oom E (allocs s) then (None, s\<lparr>allocs := Suc (allocs s)\<rparr>)
      else (Some (length (heap s)),
            s\<lparr>heap := heap s @ [Some txt], allocs := Suc (allocs s)\<rparr>))"

definition load_str :: "shell \<Rightarrow> ptr \<Rightarrow> string result" where
  "load_str s p =
     (case p of
        None \<Rightarrow> Fault NullDeref
      | Some a \<Rightarrow>
          if a < length (heap s)
          then (case heap s ! a of None \<Rightarrow> Fault UseAfterFree | Some t \<Rightarrow> Ret t)
          else Fault UseAfterFree)"

definition free :: "ptr \<Rightarrow> shell \<Rightarrow> unit result \<times> shell" where
  "free p s =
     (case p of
        None \<Rightarrow> (Ret (), s)
      | Some a \<Rightarrow>
          if a < length (heap s) \<and> heap s ! a \<noteq> None
          then (Ret (), s\<lparr>heap := (heap s)[a := None]\<rparr>)
          else (Fault InvalidFree, s))"

section \<open>The history store\<close>

text \<open>\<open>history[i]\<close>: \<open>None\<close> when there is no such slot.\<close>

definition history_at :: "shell \<Rightarrow> int \<Rightarrow> ptr option" where
  "history_at s i =
     (case history s of
        None \<Rightarrow> None
      | Some arr \<Rightarrow> if 0 \<le> i \<and> i < int (length arr) then Some (arr ! nat i) else None)"

text \<open>The loop of \<open>clear_history\<close>: \<open>for (i = 0; i < history_len; i++) free(history[i])\<close>.\<close>

function clear_loop :: "int \<Rightarrow> shell \<Rightarrow> unit result \<times> shell" where
  "clear_loop i s =
     (if i < history_len s
      then (case history_at s i of
              None \<Rightarrow> (Fault IndexOutOfRange, s)
            | Some p \<Rightarrow>
                (case free p s of
                   (Ret u, s') \<Rightarrow> clear_loop (i + 1) s'
                 | (Exit c, s') \<Rightarrow> (Exit c, s')
                 | (Fault f, s') \<Rightarrow> (Fault f, s')))
      else (Ret (), s))"
  by pat_completeness auto
termination
  by (relation "measure (\<lambda>(i, s). nat (history_len s - i))")
     (auto simp: free_def split: option.splits if_splits)

definition clear_history :: "shell \<Rightarrow> int result \<times> shell" where
  "clear_history s =
     (case clear_loop 0 s of
        (Ret u, s') \<Rightarrow> (Ret 0, s'\<lparr>history_len := 0\<rparr>)
      | (Exit c, s') \<Rightarrow> (Exit c, s')
      | (Fault f, s') \<Rightarrow> (Fault f, s'))"

text \<open>
  \<open>add_to_history\<close>, lines 358-394, in the order of the source: the array is allocated
  on the first call (lines 361-367), the input is duplicated (lines 370-374), the oldest
  entry is evicted when the store is full (lines 379-390), the copy is stored (line 392).
  \<open>memmove(history, history+1, space_to_move)\<close> copies \<open>space_to_move\<close> bytes, that
  is \<open>space_to_move / 8\<close> slots, from slot 1 on onto slot 0 on; the slots after them keep
  their values. \<open>space_to_move\<close> is an int: a negative value becomes a size beyond every
  array. The test \<open>history == NULL\<close> of line 384 follows a read and a write through
  \<open>history\<close> and never holds.
\<close>

definition alloc_history :: "env \<Rightarrow> shell \<Rightarrow> shell" where
  "alloc_history E s =
     (if history s = None
      then (if oom E (allocs s) then s\<lparr>allocs := Suc (allocs s)\<rparr>
            else s\<lparr>history := Some (replicate (HISTORY_MAXITEMS E) None),
                   allocs := Suc (allocs s)\<rparr>)
      else s)"

definition space_to_move :: "env \<Rightarrow> int" where
  "space_to_move E = int_of_long (sizeof_ptr * (int (HISTORY_MAXITEMS E) - 1))"

definition memmove_down :: "nat \<Rightarrow> ptr list \<Rightarrow> ptr list" where
  "memmove_down n arr = take n (drop 1 arr) @ drop n arr"

definition evict_oldest :: "env \<Rightarrow> shell \<Rightarrow> unit result \<times> shell" where
  "evict_oldest E s =
     (case history_at s 0 of
        None \<Rightarrow> (Fault IndexOutOfRange, s)
      | Some p \<Rightarrow>
          (case free p s of
             (Ret u, s') \<Rightarrow>
               if space_to_move E < 0 then (Fault IndexOutOfRange, s')
               else (Ret (),
                     s'\<lparr>history :=
                          map_option (memmove_down (nat (space_to_move E div sizeof_ptr)))
                            (history s'),
                        history_len := history_len s' - 1\<rparr>)
           | (Exit c, s') \<Rightarrow> (Exit c, s')
           | (Fault f, s') \<Rightarrow> (Fault f, s')))"

definition store_line :: "addr \<Rightarrow> shell \<Rightarrow> int result \<times> shell" where
  "store_line line s =
     (case history_at s (history_len s) of
        None \<Rightarrow> (Fault IndexOutOfRange, s)
      | Some old \<Rightarrow>
          (Ret 1,
           s\<lparr>history := map_option (\<lambda>arr. arr[nat (history_len s) := Some line]) (history s),
             history_len := history_len s + 1\<rparr>))"

definition add_to_history :: "env \<Rightarrow> string \<Rightarrow> shell \<Rightarrow> int result \<times> shell" where
  "add_to_history E inp s0 =
     (let s1 = alloc_history E s0
      in if history s1 = None
         then (Ret 0, emit (Err ''error: memory alloc error\<newline>'') s1)
         else (case strdup E inp s1 of
                 (None, s2) \<Rightarrow> (Ret 0, s2)
               | (Some line, s2) \<Rightarrow>
                   (case (if history_len s2 = int (HISTORY_MAXITEMS E)
                          then evict_oldest E s2 else (Ret (), s2)) of
                      (Ret u, s3) \<Rightarrow> store_line line s3
                    | (Exit c, s3) \<Rightarrow> (Exit c, s3)
                    | (Fault f, s3) \<Rightarrow> (Fault f, s3))))"

text \<open>A run of record operations, one line after the other.\<close>

definition record_all :: "env \<Rightarrow> string list \<Rightarrow> shell \<Rightarrow> shell" where
  "record_all E ls s = fold (\<lambda>l t. snd (add_to_history E l t)) ls s"

text \<open>
  The store as the builtin sees it: the first \<open>history_len\<close> slots of the array, and the
  text each of them points to. A slot is live when it points to a buffer that has not
  been freed. The invariant of the store: the length is between 0 and the capacity, the
  array has the capacity's length once it is allocated, and the slots in use are live and
  point to different buffers.
\<close>

definition live :: "shell \<Rightarrow> ptr \<Rightarrow> bool" where
  "live s p = (case p of None \<Rightarrow> False
               | Some a \<Rightarrow> a < length (heap s) \<and> heap s ! a \<noteq> None)"

definition slots :: "shell \<Rightarrow> ptr list" where
  "slots s = (case history s of None \<Rightarrow> [] | Some arr \<Rightarrow> take (nat (history_len s)) arr)"

definition entries :: "shell \<Rightarrow> string result list" where
  "entries s = map (load_str s) (slots s)"

definition store_inv :: "nat \<Rightarrow> shell \<Rightarrow> bool" where
  "store_inv M s =
     (0 \<le> history_len s \<and> history_len s \<le> int M
      \<and> (case history s of None \<Rightarrow> history_len s = 0 | Some arr \<Rightarrow> length arr = M)
      \<and> list_all (live s) (slots s) \<and> distinct (slots s))"

text \<open>
  A buffer is kept apart from the store when the store's invariant holds, no slot in use
  points to the buffer, and the buffer holds its text.
\<close>

definition kept :: "nat \<Rightarrow> addr \<Rightarrow> string \<Rightarrow> shell \<Rightarrow> bool" where
  "kept M a txt t = (store_inv M t \<and> Some a \<notin> set (slots t) \<and> load_str t (Some a) = Ret txt)"

section \<open>The history builtin\<close>

text \<open>
  \<open>strtol(nptr, &end, 10)\<close>: white space is skipped, then an optional sign, then the
  longest run of decimal digits; the value is clamped to the range of \<open>long\<close> (64 bits
  on the platforms the program is written for). The second component says whether a
  conversion was made, that is, whether \<open>end \<noteq> nptr\<close>.
\<close>

definition isspace :: "char \<Rightarrow> bool" where
  "isspace c = (c \<in> set [CHR '' '', CHR 0x09, CHR 0x0A, CHR 0x0B, CHR 0x0C, CHR 0x0D])"

definition isdigit :: "char \<Rightarrow> bool" where
  "isdigit c = (48 \<le> (of_char c :: nat) \<and> (of_char c :: nat) \<le> 57)"

definition digit_val :: "char \<Rightarrow> int" where
  "digit_val c = int (of_char c) - 48"

definition decimal :: "string \<Rightarrow> int" where
  "decimal ds = foldl (\<lambda>a c. 10 * a + digit_val c) 0 ds"

definition LONG_MAX :: int where "LONG_MAX = 2 ^ 63 - 1"
definition LONG_MIN :: int where "LONG_MIN = - (2 ^ 63)"

definition strtol :: "string \<Rightarrow> int \<times> bool" where
  "strtol nptr =
     (let r = dropWhile isspace nptr;
          neg = (r \<noteq> [] \<and> hd r = CHR ''-'');
          r1 = (if r \<noteq> [] \<and> (hd r = CHR ''-'' \<or> hd r = CHR ''+'') then tl r else r);
          ds = takeWhile isdigit r1
      in if ds = [] then (0, False)
         else (max LONG_MIN (min LONG_MAX (if neg then - decimal ds else decimal ds)), True))"

text \<open>\<open>printf("%d", i)\<close>.\<close>

fun show_nat :: "nat \<Rightarrow> string" where
  "show_nat n =
     (if n < 10 then [char_of (48 + n)]
      else show_nat (n div 10) @ [char_of (48 + n mod 10)])"

definition show_int :: "int \<Rightarrow> string" where
  "show_int i = (if i < 0 then CHR ''-'' # show_nat (nat (- i)) else show_nat (nat i))"

text \<open>The listing loop, lines 294-297.\<close>

function list_loop :: "int \<Rightarrow> shell \<Rightarrow> unit result \<times> shell" where
  "list_loop i s =
     (if i < history_len s
      then (case history_at s i of
              None \<Rightarrow> (Fault IndexOutOfRange, s)
            | Some p \<Rightarrow>
                (case load_str s p of
                   Ret txt \<Rightarrow>
                     list_loop (i + 1) (emit (Out (show_int i @ '' '' @ txt @ ''\<newline>'')) s)
                 | Exit c \<Rightarrow> (Exit c, s)
                 | Fault f \<Rightarrow> (Fault f, s)))
      else (Ret (), s))"
  by pat_completeness auto
termination
  by (relation "measure (\<lambda>(i, s). nat (history_len s - i))") (auto simp: emit_def)

definition set_replay_context :: "commands \<Rightarrow> command \<Rightarrow> addr \<Rightarrow> shell \<Rightarrow> shell" where
  "set_replay_context cmds cmd line s =
     s\<lparr>parent_cmd := Some cmd, temp_line := Some line, parent_cmds := Some cmds\<rparr>"

definition reset_replay_context :: "shell \<Rightarrow> shell" where
  "reset_replay_context s = s\<lparr>parent_cmd := None, temp_line := None, parent_cmds := None\<rparr>"

text \<open>
  Lines 324-348: the replay of \<open>history[offset]\<close>. \<open>replay_finish\<close> is what follows
  the return of \<open>exec_commands\<close>, lines 340-348.

  Modelled from the spec: \<open>cleanup_commands\<close> is called by main.c and defined nowhere in
  it. It destroys the pipeline built by \<open>parse_commands_with_pipes\<close>, which is not part
  of the store of string buffers, so it leaves the state as it is.
\<close>

definition replay_finish :: "addr \<Rightarrow> int result \<times> shell \<Rightarrow> int result \<times> shell" where
  "replay_finish line x =
     (case x of
        (Exit c, s2) \<Rightarrow> (Exit c, s2)
      | (Fault f, s2) \<Rightarrow> (Fault f, s2)
      | (Ret r, s2) \<Rightarrow>
          (case free (Some line) s2 of
             (Exit c, s3) \<Rightarrow> (Exit c, s3)
           | (Fault f, s3) \<Rightarrow> (Fault f, s3)
           | (Ret u, s3) \<Rightarrow> (Ret 0, reset_replay_context s3)))"

definition protosh_history_replay ::
  "env \<Rightarrow> commands \<Rightarrow> command \<Rightarrow> int \<Rightarrow> shell \<Rightarrow> int result \<times> shell" where
  "protosh_history_replay E cmds cmd offset s =
     (case history_at s offset of
        None \<Rightarrow> (Fault IndexOutOfRange, s)
      | Some p \<Rightarrow>
          (case load_str s p of
             Exit c \<Rightarrow> (Exit c, s)
           | Fault f \<Rightarrow> (Fault f, s)
           | Ret txt \<Rightarrow>
               (case strdup E txt s of
                  (None, s1) \<Rightarrow> (Ret 1, s1)
                | (Some line, s1) \<Rightarrow>
                    replay_finish line
                      (exec_commands E (parse_commands_with_pipes E txt)
                         (set_replay_context cmds cmd line s1)))))"

definition protosh_history :: "env \<Rightarrow> commands \<Rightarrow> command \<Rightarrow> shell \<Rightarrow> int result \<times> shell" where
  "protosh_history E cmds cmd s =
     (if argc cmd = 1
      then (case list_loop 0 s of
              (Ret u, s') \<Rightarrow> (Ret 1, s')
            | (Exit c, s') \<Rightarrow> (Exit c, s')
            | (Fault f, s') \<Rightarrow> (Fault f, s'))
      else if argc cmd > 1
      then (if cmd ! 1 = ''-c''
            then (case clear_history s of
                    (Ret u, s') \<Rightarrow> (Ret 0, s')
                  | (Exit c, s') \<Rightarrow> (Exit c, s')
                  | (Fault f, s') \<Rightarrow> (Fault f, s'))
            else (case strtol (cmd ! 1) of
                    (loffset, converted) \<Rightarrow>
                      if \<not> converted
                      then (Ret 1, emit (Err ''error: cannot convert to number\<newline>'') s)
                      else if int_of_long loffset > history_len s
                      then (Ret 1, emit (Err ''error: offset > number of items\<newline>'') s)
                      else protosh_history_replay E cmds cmd (int_of_long loffset) s))
      else (Ret 0, s))"

section \<open>The other builtins, the dispatcher and the launcher\<close>

definition builtin_str :: "string list" where
  "builtin_str = [''cd'', ''help'', ''exit'', ''history'']"

definition protosh_num_builtins :: nat where
  "protosh_num_builtins = length builtin_str"

definition protosh_cd :: "env \<Rightarrow> string list \<Rightarrow> shell \<Rightarrow> int result \<times> shell" where
  "protosh_cd E args s =
     (if length args < 2
      then (Ret 1, emit (Err ''protosh: expected argument to \"cd\"\<newline>'') s)
      else if chdir_ok E (args ! 1) then (Ret 1, emit (Chdir (args ! 1)) s)
      else (Ret 1, emit (Perror ''protosh'') s))"

definition protosh_help :: "string list \<Rightarrow> shell \<Rightarrow> int result \<times> shell" where
  "protosh_help args s =
     (Ret 1,
      emit (Out ''Use the man command for information on other programs.\<newline>'')
        (fold (\<lambda>b. emit (Out (''  '' @ b @ ''\<newline>''))) builtin_str
           (emit (Out ''The following are built in:\<newline>'')
              (emit (Out ''Type program names and arguments, and hit enter!\<newline>'')
                 (emit (Out ''Jonathan Medhanie's protosh\<newline>'') s)))))"

definition protosh_exit :: "string list \<Rightarrow> shell \<Rightarrow> int result \<times> shell" where
  "protosh_exit args s = (Ret 0, s)"

text \<open>
  \<open>protosh_launch\<close> as the interpreter process sees it: the child is another process;
  the parent waits for it and returns 1, or reports that \<open>fork\<close> failed and returns 1.
\<close>

definition protosh_launch :: "env \<Rightarrow> string list \<Rightarrow> shell \<Rightarrow> int result \<times> shell" where
  "protosh_launch E args s =
     (if fork_ok E args then (Ret 1, emit (Spawn args) s)
      else (Ret 1, emit (Perror ''protosh'') s))"

text \<open>
  The table \<open>builtin_func\<close>, lines 41-46, and the call \<open>(*builtin_func[i])(args)\<close> of
  line 150. The entries have the type \<open>int (*)(char **)\<close> and the dispatcher calls each
  with the argument vector alone. \<open>protosh_cd\<close>, \<open>protosh_help\<close> and \<open>protosh_exit\<close>
  take that one argument. \<open>protosh_history\<close> is defined with two parameters, the pipeline
  and the command (line 288): called through the table it is given the argument vector in
  the place of the pipeline and nothing in the place of the command, and it starts by
  reading \<open>cmd->argc\<close>. C leaves that call undefined.
\<close>

definition builtin_func :: "nat \<Rightarrow> env \<Rightarrow> string list \<Rightarrow> shell \<Rightarrow> int result \<times> shell" where
  "builtin_func i E args s =
     (if i = 0 then protosh_cd E args s
      else if i = 1 then protosh_help args s
      else if i = 2 then protosh_exit args s
      else (Fault UndefinedCall, s))"

definition protosh_execute :: "env \<Rightarrow> string list \<Rightarrow> shell \<Rightarrow> int result \<times> shell" where
  "protosh_execute E args s =
     (if args = [] then (Ret 1, s)
      else (case find (\<lambda>i. hd args = builtin_str ! i) [0..<protosh_num_builtins] of
              Some i \<Rightarrow> builtin_func i E args s
            | None \<Rightarrow> protosh_launch E args s))"

section \<open>Reading a line, splitting it, and the interpreter loop\<close>

definition INT_MAX :: int where "INT_MAX = 2 ^ 31 - 1"

definition protosh_RL_BUFSIZE :: nat where "protosh_RL_BUFSIZE = 1024"
definition protosh_TOK_BUFSIZE :: nat where "protosh_TOK_BUFSIZE = 64"
definition protosh_TOK_DELIM :: string where
  "protosh_TOK_DELIM = [CHR '' '', CHR 0x09, CHR 0x0D, CHR 0x0A, CHR 0x07]"

definition alloc_error :: event where
  "alloc_error = Err ''protosh: allocation error\<newline>''"

text \<open>
  The text of a C buffer ends at its first NUL byte.
\<close>

definition c_string :: "string \<Rightarrow> string" where
  "c_string buf = takeWhile (\<lambda>c. c \<noteq> CHR 0x00) buf"

text \<open>
  The loop of \<open>protosh_read_line\<close>, lines 174-197, on the bytes still to come on the
  standard input (end of input when there are none left). \<open>buf\<close> holds the bytes stored
  so far, \<open>position\<close> is its length. The result carries the input that is left.
  \<open>bufsize\<close> is a C int, and \<open>bufsize += protosh_RL_BUFSIZE\<close> overflows on a line
  of about \<open>2 ^ 31\<close> bytes.
\<close>

fun read_loop ::
  "env \<Rightarrow> string \<Rightarrow> nat \<Rightarrow> string \<Rightarrow> shell \<Rightarrow> (string \<times> string) result \<times> shell" where
  "read_loop E [] bufsize buf s = (Exit EXIT_SUCCESS, s)"
| "read_loop E (c # cs) bufsize buf s =
     (if c = CHR 0x0A then (Ret (c_string buf, cs), s)
      else if Suc (length buf) \<ge> bufsize
      then (if int bufsize + int protosh_RL_BUFSIZE > INT_MAX then (Fault IntegerOverflow, s)
            else if oom E (allocs s)
            then (Exit EXIT_FAILURE, emit alloc_error (s\<lparr>allocs := Suc (allocs s)\<rparr>))
            else read_loop E cs (bufsize + protosh_RL_BUFSIZE) (buf @ [c])
                   (s\<lparr>allocs := Suc (allocs s)\<rparr>))
      else read_loop E cs bufsize (buf @ [c]) s)"

definition protosh_read_line :: "env \<Rightarrow> string \<Rightarrow> shell \<Rightarrow> (string \<times> string) result \<times> shell" where
  "protosh_read_line E stdin s =
     (if oom E (allocs s)
      then (Exit EXIT_FAILURE, emit alloc_error (s\<lparr>allocs := Suc (allocs s)\<rparr>))
      else read_loop E stdin protosh_RL_BUFSIZE [] (s\<lparr>allocs := Suc (allocs s)\<rparr>))"

text \<open>
  The tokens \<open>strtok\<close> yields one after the other: the maximal runs of bytes that are not
  delimiters. \<open>cur\<close> is the token being read.
\<close>

fun strtok_all :: "string \<Rightarrow> string \<Rightarrow> string list" where
  "strtok_all [] cur = (if cur = [] then [] else [cur])"
| "strtok_all (c # cs) cur =
     (if c \<in> set protosh_TOK_DELIM
      then (if cur = [] then strtok_all cs [] else cur # strtok_all cs [])
      else strtok_all cs (cur @ [c]))"

text \<open>
  The loop of \<open>protosh_split_line\<close>, lines 219-235, on the tokens still to come;
  \<open>tokens\<close> holds those stored so far, \<open>position\<close> is its length.
\<close>

fun split_loop ::
  "env \<Rightarrow> string list \<Rightarrow> nat \<Rightarrow> string list \<Rightarrow> shell \<Rightarrow> string list result \<times> shell" where
  "split_loop E [] bufsize tokens s = (Ret tokens, s)"
| "split_loop E (t # ts) bufsize tokens s =
     (if Suc (length tokens) \<ge> bufsize
      then (if int bufsize + int protosh_TOK_BUFSIZE > INT_MAX then (Fault IntegerOverflow, s)
            else if oom E (allocs s)
            then (Exit EXIT_FAILURE, emit alloc_error (s\<lparr>allocs := Suc (allocs s)\<rparr>))
            else split_loop E ts (bufsize + protosh_TOK_BUFSIZE) (tokens @ [t])
                   (s\<lparr>allocs := Suc (allocs s)\<rparr>))
      else split_loop E ts bufsize (tokens @ [t]) s)"

definition protosh_split_line :: "env \<Rightarrow> string \<Rightarrow> shell \<Rightarrow> string list result \<times> shell" where
  "protosh_split_line E line s =
     (if oom E (allocs s)
      then (Exit EXIT_FAILURE, emit alloc_error (s\<lparr>allocs := Suc (allocs s)\<rparr>))
      else split_loop E (strtok_all line []) protosh_TOK_BUFSIZE []
             (s\<lparr>allocs := Suc (allocs s)\<rparr>))"

text \<open>
  One turn of the \<open>do ... while (status)\<close> of \<open>protosh_loop\<close>, lines 250-256: the
  result is \<open>status\<close> and the input that is left. \<open>line\<close> and \<open>args\<close> are local
  buffers, released at the end of the turn.
\<close>

definition protosh_loop_body :: "env \<Rightarrow> string \<Rightarrow> shell \<Rightarrow> (int \<times> string) result \<times> shell" where
  "protosh_loop_body E stdin s =
     (case protosh_read_line E stdin (emit (Out ''> '') s) of
        (Exit c, s1) \<Rightarrow> (Exit c, s1)
      | (Fault f, s1) \<Rightarrow> (Fault f, s1)
      | (Ret (line, rest), s1) \<Rightarrow>
          (case protosh_split_line E line s1 of
             (Exit c, s2) \<Rightarrow> (Exit c, s2)
           | (Fault f, s2) \<Rightarrow> (Fault f, s2)
           | (Ret args, s2) \<Rightarrow>
               (case protosh_execute E args s2 of
                  (Exit c, s3) \<Rightarrow> (Exit c, s3)
                | (Fault f, s3) \<Rightarrow> (Fault f, s3)
                | (Ret status, s3) \<Rightarrow> (Ret (status, rest), s3))))"

text \<open>
  \<open>protosh_loop\<close> and \<open>main\<close>. Every turn that returns has taken at least the newline
  off the input, so the loop ends on every finite input.
\<close>

function protosh_loop :: "env \<Rightarrow> string \<Rightarrow> shell \<Rightarrow> unit result \<times> shell" where
  "protosh_loop E stdin s =
     (case protosh_loop_body E stdin s of
        (Exit c, s') \<Rightarrow> (Exit c, s')
      | (Fault f, s') \<Rightarrow> (Fault f, s')
      | (Ret (status, rest), s') \<Rightarrow>
          if status \<noteq> 0 then protosh_loop E rest s' else (Ret (), s'))"
  by pat_completeness auto
termination
proof (relation "measure (\<lambda>(E, stdin, s). length stdin)")
  show "wf (measure (\<lambda>(E, stdin, s). length stdin))"
    by simp
next
  fix E :: env and stdin :: string and s :: shell
    and x1 x2 status rest and x :: "(int \<times> string)"
  assume body: "(x1, x2) = protosh_loop_body E stdin s"
    and x1: "x1 = Ret x" and x: "(status, rest) = x"
  have shorter: "read_loop E inp n buf t = (Ret (l, r), t') \<Longrightarrow> length r < length inp"
    for inp n buf t l r t'
    by (induction E inp n buf t rule: read_loop.induct)
       (auto split: if_splits simp: less_Suc_eq)
  from body x1 x have "length rest < length stdin"
    by (auto simp: protosh_loop_body_def protosh_read_line_def
             split: prod.splits result.splits if_splits dest!: shorter)
  then show "((E, rest, x2), E, stdin, s) \<in> measure (\<lambda>(E, stdin, s). length stdin)"
    by simp
qed

definition main :: "env \<Rightarrow> string \<Rightarrow> unit result \<times> shell" where
  "main E stdin =
     (case protosh_loop E stdin init_shell of
        (Ret u, s) \<Rightarrow> (Exit EXIT_SUCCESS, s)
      | (Exit c, s) \<Rightarrow> (Exit c, s)
      | (Fault f, s) \<Rightarrow> (Fault f, s))"

text \<open>The equations of the three loops are unfolded by hand, one turn at a time.\<close>

declare clear_loop.simps [simp del] list_loop.simps [simp del] protosh_loop.simps [simp del]

section \<open>Concrete inputs\<close>

text \<open>
  An environment with room for three history entries, in which no allocation, \<open>chdir\<close>
  or \<open>fork\<close> fails, a replayed line is one stage split at white space, and the replayed
  pipeline runs without touching the interpreter's state.
\<close>

definition env0 :: env where
  "env0 = \<lparr>HISTORY_MAXITEMS = 3, oom = (\<lambda>k. False), chdir_ok = (\<lambda>d. True),
     fork_ok = (\<lambda>a. True), parse_commands_with_pipes = (\<lambda>l. [strtok_all l []]),
     exec_commands = (\<lambda>cs s. (Ret 1, s))\<rparr>"

text \<open>The store after \<open>echo a\<close> has been recorded in the initial state.\<close>

definition store_a :: shell where
  "store_a = init_shell\<lparr>heap := [Some ''echo a''], history := Some [Some 0, None, None],
     history_len := 1, allocs := 2\<rparr>"

text \<open>The same environment when every allocation request fails.\<close>

definition env_oom :: env where
  "env_oom = env0\<lparr>oom := (\<lambda>k. True)\<rparr>"

text \<open>
  A store with two entries, the first of which is itself a replay; the state in which
  the replay of entry 0 (``the parent'') calls \<open>exec_commands\<close>; and an environment
  whose \<open>exec_commands\<close> calls \<open>protosh_history\<close> with the pipeline and its first
  command.
\<close>

definition store_nested :: shell where
  "store_nested = init_shell\<lparr>heap := [Some ''history 1'', Some ''ls''],
     history := Some [Some 0, Some 1, None], history_len := 2, allocs := 3\<rparr>"

definition parent_inflight :: shell where
  "parent_inflight =
     set_replay_context [[''history'', ''0'']] [''history'', ''0''] 2
       (snd (strdup env0 ''history 1'' store_nested))"

definition env_nested :: env where
  "env_nested = env0\<lparr>exec_commands := (\<lambda>cs s. protosh_history env0 cs (hd cs) s)\<rparr>"

text \<open>
  An environment whose \<open>exec_commands\<close> starts one process for each stage of the pipeline
  and changes nothing else.
\<close>

definition env_run :: env where
  "env_run = env0\<lparr>exec_commands := (\<lambda>cs s. (Ret 1, fold (\<lambda>c t. emit (Spawn c) t) cs s))\<rparr>"

section \<open>The history store keeps its invariant\<close>

lemma live_iff_load: "live s p \<longleftrightarrow> (\<exists>t. load_str s p = Ret t)"
  by (auto simp: live_def load_str_def split: option.splits)

lemma load_str_heap: "heap s' = heap s \<Longrightarrow> load_str s' p = load_str s p"
  by (auto simp: load_str_def split: option.splits)

lemma load_str_Some: "load_str s p = Ret t \<Longrightarrow> \<exists>a. p = Some a"
  by (cases p) (auto simp: load_str_def)

lemma slots_eq:
  "history s' = history s \<Longrightarrow> history_len s' = history_len s \<Longrightarrow> slots s' = slots s"
  by (simp add: slots_def split: option.splits)

lemma store_inv_iff:
  "store_inv M s \<longleftrightarrow>
     0 \<le> history_len s \<and> history_len s \<le> int M
     \<and> (history s = None \<longrightarrow> history_len s = 0)
     \<and> (\<forall>arr. history s = Some arr \<longrightarrow> length arr = M)
     \<and> (\<forall>p \<in> set (slots s). live s p) \<and> distinct (slots s)"
  by (auto simp: store_inv_def list_all_iff split: option.splits)

lemma slots_length: "store_inv M s \<Longrightarrow> length (slots s) = nat (history_len s)"
  by (auto simp: store_inv_iff slots_def split: option.splits)

lemma entries_length: "store_inv M s \<Longrightarrow> length (entries s) = nat (history_len s)"
  by (simp add: entries_def slots_length)

lemma entries_bound: "store_inv M s \<Longrightarrow> length (entries s) \<le> M"
  by (auto simp: entries_def store_inv_iff slots_def split: option.splits)

lemma init_shell_inv: "store_inv M init_shell"
  by (simp add: store_inv_def init_shell_def slots_def)

lemma alloc_history_frame:
  "heap (alloc_history E s) = heap s" "history_len (alloc_history E s) = history_len s"
  "trace (alloc_history E s) = trace s"
  by (simp_all add: alloc_history_def)

lemma alloc_history_slots:
  "store_inv M s \<Longrightarrow> slots (alloc_history E s) = slots s"
  by (auto simp: alloc_history_def slots_def store_inv_iff split: option.splits)

lemma alloc_history_cases:
  "history (alloc_history E s) = history s
   \<or> history s = None
     \<and> history (alloc_history E s) = Some (replicate (HISTORY_MAXITEMS E) None)"
  by (simp add: alloc_history_def)

lemma alloc_history_inv:
  assumes "store_inv (HISTORY_MAXITEMS E) s"
  shows "store_inv (HISTORY_MAXITEMS E) (alloc_history E s)"
proof -
  have "live (alloc_history E s) p = live s p" for p
    by (simp add: live_iff_load load_str_heap [OF alloc_history_frame(1)])
  moreover have "history (alloc_history E s) = None \<longrightarrow> history s = None"
    using alloc_history_cases [of E s] by auto
  moreover have "\<forall>arr. history (alloc_history E s) = Some arr
      \<longrightarrow> length arr = HISTORY_MAXITEMS E"
    using alloc_history_cases [of E s] assms by (auto simp: store_inv_iff)
  ultimately show ?thesis
    using assms unfolding store_inv_iff alloc_history_slots [OF assms] alloc_history_frame
    by simp
qed

lemma strdup_step:
  assumes inv: "store_inv M s" and dup: "strdup E t s = (Some a, s')"
  shows "store_inv M s'" and "slots s' = slots s" and "entries s' = entries s"
    and "Some a \<notin> set (slots s')" and "load_str s' (Some a) = Ret t"
    and "history s' = history s" and "history_len s' = history_len s"
    and "\<And>b u. load_str s (Some b) = Ret u \<Longrightarrow> load_str s' (Some b) = Ret u"
proof -
  from dup have a: "a = length (heap s)"
    and s': "s' = s\<lparr>heap := heap s @ [Some t], allocs := Suc (allocs s)\<rparr>"
    by (auto simp: strdup_def split: if_splits)
  show h: "history s' = history s" "history_len s' = history_len s" by (simp_all add: s')
  show sl: "slots s' = slots s" by (rule slots_eq) (simp_all add: h)
  show keep: "load_str s (Some b) = Ret u \<Longrightarrow> load_str s' (Some b) = Ret u" for b u
    by (auto simp: s' load_str_def nth_append split: if_splits option.splits)
  have all_live: "\<forall>p \<in> set (slots s). live s p"
    using inv by (simp add: store_inv_iff)
  have same: "load_str s' p = load_str s p" if "p \<in> set (slots s)" for p
  proof -
    from all_live that obtain u where u: "load_str s p = Ret u" by (auto simp: live_iff_load)
    with load_str_Some obtain b where "p = Some b" by blast
    with u keep show ?thesis by simp
  qed
  then have live': "live s' p" if "p \<in> set (slots s)" for p
    using all_live that by (simp add: live_iff_load)
  show "store_inv M s'"
    using inv live' by (simp add: store_inv_iff sl h)
  show "entries s' = entries s"
    unfolding entries_def sl by (rule map_cong [OF refl]) (rule same)
  show "Some a \<notin> set (slots s')"
  proof
    assume "Some a \<in> set (slots s')"
    with all_live sl have "live s (Some a)" by simp
    then show False by (simp add: live_def a)
  qed
  show "load_str s' (Some a) = Ret t" by (simp add: s' a load_str_def)
qed

lemma space_to_move_small:
  assumes "HISTORY_MAXITEMS E = M" and "0 < M" and "M \<le> 2 ^ 28"
  shows "\<not> space_to_move E < 0" and "nat (space_to_move E div sizeof_ptr) = M - 1"
proof -
  from assms have "0 \<le> 8 * (int M - 1)" "8 * (int M - 1) < 2 ^ 31" by simp_all
  then have "int_of_long (8 * (int M - 1)) = 8 * (int M - 1)"
    by (simp add: int_of_long_def)
  then have eq: "space_to_move E = 8 * (int M - 1)"
    by (simp add: space_to_move_def sizeof_ptr_def assms(1))
  from eq assms(2) show "\<not> space_to_move E < 0" by simp
  from eq assms(2) show "nat (space_to_move E div sizeof_ptr) = M - 1"
    by (simp add: sizeof_ptr_def)
qed

lemma evict_step:
  assumes inv: "store_inv M s" and full: "history_len s = int M" and pos: "0 < M"
    and M: "HISTORY_MAXITEMS E = M" and small: "M \<le> 2 ^ 28"
  shows "\<exists>s'. evict_oldest E s = (Ret (), s') \<and> store_inv M s'
            \<and> history_len s' = int M - 1 \<and> history s' \<noteq> None
            \<and> entries s' = tl (entries s) \<and> set (slots s') \<subseteq> set (slots s)
            \<and> (\<forall>b u. Some b \<notin> set (slots s) \<longrightarrow> load_str s (Some b) = Ret u
                   \<longrightarrow> load_str s' (Some b) = Ret u)"
proof -
  from inv full pos obtain arr where arr: "history s = Some arr" and len: "length arr = M"
    by (cases "history s") (auto simp: store_inv_iff)
  from len pos obtain p0 rest where arr_eq: "arr = p0 # rest" by (cases arr) auto
  have sl: "slots s = arr" by (simp add: slots_def arr full len)
  from inv sl have live_all: "\<forall>p \<in> set arr. live s p" and dist: "distinct arr"
    by (simp_all add: store_inv_iff)
  from live_all have "live s p0" by (simp add: arr_eq)
  then obtain a0 where p0: "p0 = Some a0" and a0: "a0 < length (heap s)" "heap s ! a0 \<noteq> None"
    by (cases p0) (simp_all add: live_def)
  define s' where "s' = s\<lparr>heap := (heap s)[a0 := None],
     history := Some (memmove_down (M - 1) arr), history_len := int M - 1\<rparr>"
  note stm = space_to_move_small [OF M pos small]
  have mm: "memmove_down (M - 1) arr = rest @ drop (M - 1) arr"
    using len by (simp add: memmove_down_def arr_eq)
  have f': "history s' = Some (rest @ drop (M - 1) arr)" "history_len s' = int M - 1"
    "heap s' = (heap s)[a0 := None]"
    unfolding s'_def mm by simp_all
  have ev: "evict_oldest E s = (Ret (), s')"
    using pos a0
    by (simp add: evict_oldest_def history_at_def arr arr_eq p0 free_def stm s'_def full)
  have "nat (int M - 1) = length rest" using len by (auto simp: arr_eq)
  then have sl': "slots s' = rest"
    by (simp add: slots_def f')
  have keep: "load_str s' (Some b) = load_str s (Some b)" if "b \<noteq> a0" for b
    using that by (simp add: load_str_def f')
  have same: "load_str s' p = load_str s p" if "p \<in> set rest" for p
  proof -
    from live_all that have "live s p" by (simp add: arr_eq)
    then obtain u where "load_str s p = Ret u" by (auto simp: live_iff_load)
    with load_str_Some obtain b where b: "p = Some b" by blast
    with that dist have "b \<noteq> a0" by (auto simp: arr_eq p0)
    with keep b show ?thesis by simp
  qed
  have live': "live s' p" if "p \<in> set rest" for p
  proof -
    from live_all that have "live s p" by (simp add: arr_eq)
    with same [OF that] show ?thesis by (simp add: live_iff_load)
  qed
  have "length (rest @ drop (M - 1) arr) = M" using len pos by (simp add: arr_eq)
  then have inv': "store_inv M s'"
    unfolding store_inv_iff sl' f' using live' dist pos by (simp add: arr_eq)
  have ent: "entries s' = tl (entries s)"
    unfolding entries_def sl sl' using same by (simp add: arr_eq)
  have frame: "\<forall>b u. Some b \<notin> set (slots s) \<longrightarrow> load_str s (Some b) = Ret u
      \<longrightarrow> load_str s' (Some b) = Ret u"
  proof (intro allI impI)
    fix b u assume "Some b \<notin> set (slots s)" and u: "load_str s (Some b) = Ret u"
    then have "b \<noteq> a0" by (auto simp: sl arr_eq p0)
    with keep u show "load_str s' (Some b) = Ret u" by simp
  qed
  have sub: "set (slots s') \<subseteq> set (slots s)" by (auto simp: sl sl' arr_eq)
  from ev inv' f'(1,2) ent sub frame show ?thesis by simp
qed

lemma store_step:
  assumes inv: "store_inv M s" and room: "history_len s < int M"
    and alloc: "history s \<noteq> None"
    and fresh: "Some a \<notin> set (slots s)" and held: "load_str s (Some a) = Ret t"
  shows "\<exists>s'. store_line a s = (Ret 1, s') \<and> store_inv M s' \<and> heap s' = heap s
            \<and> history_len s' = history_len s + 1 \<and> entries s' = entries s @ [Ret t]
            \<and> slots s' = slots s @ [Some a]"
proof -
  from alloc obtain arr where arr: "history s = Some arr" by auto
  with inv have len: "length arr = M" and nonneg: "0 \<le> history_len s"
    by (simp_all add: store_inv_iff)
  define n where "n = nat (history_len s)"
  have n: "history_len s = int n" "n < M" using nonneg room by (simp_all add: n_def)
  define s' where "s' = s\<lparr>history := Some (arr[n := Some a]), history_len := int n + 1\<rparr>"
  have f': "history s' = Some (arr[n := Some a])" "history_len s' = int n + 1"
    "heap s' = heap s"
    by (simp_all add: s'_def)
  have st: "store_line a s = (Ret 1, s')"
    using n len by (simp add: store_line_def history_at_def arr s'_def)
  have sl: "slots s = take n arr" by (simp add: slots_def arr n)
  have "nat (int n + 1) = Suc n" by simp
  then have sl': "slots s' = take n arr @ [Some a]"
    using n len by (simp add: slots_def f' take_Suc_conv_app_nth)
  have ld: "load_str s' p = load_str s p" for p
    by (rule load_str_heap) (simp add: f')
  from inv have old: "\<forall>p \<in> set (take n arr). live s p" "distinct (take n arr)"
    by (simp_all add: store_inv_iff sl)
  have live': "live s' p" if "p \<in> set (take n arr @ [Some a])" for p
    using that old(1) held by (auto simp: live_iff_load ld)
  have inv': "store_inv M s'"
    unfolding store_inv_iff sl' f' using live' old(2) fresh n len by (simp add: sl)
  have ent: "entries s' = entries s @ [Ret t]"
    by (simp add: entries_def sl sl' ld held)
  from st inv' f' ent sl sl' n show ?thesis by simp
qed

lemma store_frame:
  assumes "heap s' = heap s" and "history s' = history s" and "history_len s' = history_len s"
  shows "slots s' = slots s" and "entries s' = entries s" and "store_inv M s' = store_inv M s"
    and "load_str s' p = load_str s p"
proof -
  show sl: "slots s' = slots s" using assms(2,3) by (rule slots_eq)
  show ld: "load_str s' q = load_str s q" for q using assms(1) by (rule load_str_heap)
  show "entries s' = entries s" by (simp add: entries_def sl ld)
  show "store_inv M s' = store_inv M s"
    unfolding store_inv_iff sl live_iff_load ld using assms by simp
qed

lemma add_to_history_step:
  assumes inv: "store_inv M s" and M: "HISTORY_MAXITEMS E = M" and pos: "0 < M"
    and small: "M \<le> 2 ^ 28"
  shows "\<exists>r s'. add_to_history E l s = (r, s') \<and> store_inv M s'
            \<and> (r = Ret 1 \<and> entries s' =
                  (if history_len s = int M then tl (entries s) else entries s) @ [Ret l]
               \<or> r = Ret 0 \<and> entries s' = entries s)
            \<and> (\<not> oom E (allocs s) \<and> \<not> oom E (Suc (allocs s)) \<longrightarrow> r = Ret 1)
            \<and> (\<forall>b u. Some b \<notin> set (slots s) \<longrightarrow> load_str s (Some b) = Ret u
                   \<longrightarrow> load_str s' (Some b) = Ret u \<and> Some b \<notin> set (slots s'))"
proof -
  define s1 where "s1 = alloc_history E s"
  have heap1: "heap s1 = heap s" by (simp add: s1_def alloc_history_frame)
  have below: "b < length (heap s)" if "load_str s (Some b) = Ret u" for b u
    using that by (simp add: load_str_def split: if_splits)
  have inv1: "store_inv M s1"
    using alloc_history_inv [of E s] inv M by (simp add: s1_def)
  have fr1: "slots s1 = slots s" "entries s1 = entries s" "history_len s1 = history_len s"
    "load_str s1 p = load_str s p" for p
    using alloc_history_slots [OF inv, of E]
    by (simp_all add: s1_def entries_def alloc_history_frame
        load_str_heap [OF alloc_history_frame(1)])
  have al1: "allocs s1 = allocs s \<or> allocs s1 = Suc (allocs s)"
    by (simp add: s1_def alloc_history_def)
  have oom1: "history s1 = None \<Longrightarrow> oom E (allocs s)"
    by (simp add: s1_def alloc_history_def split: if_splits)
  have al1': "history s \<noteq> None \<Longrightarrow> allocs s1 = allocs s"
    by (simp add: s1_def alloc_history_def)
  define rest where "rest = (case strdup E l s1 of
       (None, s2) \<Rightarrow> (Ret 0, s2)
     | (Some line, s2) \<Rightarrow>
         (case (if history_len s2 = int (HISTORY_MAXITEMS E)
                then evict_oldest E s2 else (Ret (), s2)) of
            (Ret u, s3) \<Rightarrow> store_line line s3
          | (Exit c, s3) \<Rightarrow> (Exit c, s3)
          | (Fault f, s3) \<Rightarrow> (Fault f, s3)))"
  have unf: "add_to_history E l s =
      (if history s1 = None then (Ret 0, emit (Err ''error: memory alloc error\<newline>'') s1)
       else rest)"
    by (simp add: add_to_history_def Let_def s1_def rest_def)
  show ?thesis
  proof (cases "history s1 = None")
    case True
    define s' where "s' = emit (Err ''error: memory alloc error\<newline>'') s1"
    have res: "add_to_history E l s = (Ret 0, s')"
      using True by (simp add: unf s'_def)
    have fr: "slots s' = slots s1" "entries s' = entries s1" "store_inv M s' = store_inv M s1"
      "load_str s' p = load_str s1 p" for p
      by (rule store_frame; simp add: s'_def emit_def)+
    from res inv1 fr fr1 oom1 [OF True] show ?thesis by simp
  next
    case False
    then have unf': "add_to_history E l s = rest"
      by (simp only: unf if_False)
    show ?thesis
    proof (cases "strdup E l s1")
      case (Pair q s2)
      show ?thesis
      proof (cases q)
        case None
        with Pair have s2: "s2 = s1\<lparr>allocs := Suc (allocs s1)\<rparr>" and o: "oom E (allocs s1)"
          by (auto simp: strdup_def split: if_splits)
        have res: "add_to_history E l s = (Ret 0, s2)"
          using Pair None by (simp add: unf' rest_def)
        have fr: "slots s2 = slots s1" "entries s2 = entries s1"
          "store_inv M s2 = store_inv M s1" "load_str s2 p = load_str s1 p" for p
          by (rule store_frame; simp add: s2)+
        from al1 o have "oom E (allocs s) \<or> oom E (Suc (allocs s))" by auto
        with res inv1 fr fr1 show ?thesis by simp
      next
        case (Some line)
        with Pair have dup: "strdup E l s1 = (Some line, s2)" by simp
        note d = strdup_step [OF inv1 dup]
        from dup have line: "line = length (heap s)"
          by (auto simp: strdup_def heap1 split: if_splits)
        from dup have al2: "allocs s2 = Suc (allocs s1)"
          by (auto simp: strdup_def split: if_splits)
        have res0: "add_to_history E l s =
            (case (if history_len s2 = int M then evict_oldest E s2 else (Ret (), s2)) of
               (Ret u, s3) \<Rightarrow> store_line line s3
             | (Exit c, s3) \<Rightarrow> (Exit c, s3)
             | (Fault f, s3) \<Rightarrow> (Fault f, s3))"
          using dup by (simp add: unf' rest_def M)
        show ?thesis
        proof (cases "history_len s2 = int M")
          case True
          from evict_step [OF d(1) True pos M small] obtain s3 where
            ev: "evict_oldest E s2 = (Ret (), s3)" and inv3: "store_inv M s3"
            and len3: "history_len s3 = int M - 1" and h3: "history s3 \<noteq> None"
            and ent3: "entries s3 = tl (entries s2)"
            and sub3: "set (slots s3) \<subseteq> set (slots s2)"
            and keep3: "\<forall>b u. Some b \<notin> set (slots s2) \<longrightarrow> load_str s2 (Some b) = Ret u
                   \<longrightarrow> load_str s3 (Some b) = Ret u"
            by blast
          from sub3 d(4) have fresh3: "Some line \<notin> set (slots s3)" by auto
          from keep3 d(4) d(5) have held3: "load_str s3 (Some line) = Ret l" by blast
          from len3 pos have room3: "history_len s3 < int M" by simp
          from store_step [OF inv3 room3 h3 fresh3 held3] obtain s4 where
            st: "store_line line s3 = (Ret 1, s4)" and inv4: "store_inv M s4"
            and heap4: "heap s4 = heap s3" and ent4: "entries s4 = entries s3 @ [Ret l]"
            and sl4: "slots s4 = slots s3 @ [Some line]"
            by blast
          have out: "Some b \<notin> set (slots s4)"
            if "Some b \<notin> set (slots s)" "load_str s (Some b) = Ret u" for b u
            using that sub3 d(2) fr1(1) below [OF that(2)] line
            by (auto simp: sl4)
          have res: "add_to_history E l s = (Ret 1, s4)"
            using res0 True ev st by simp
          have keep: "load_str s4 (Some b) = Ret u"
            if "Some b \<notin> set (slots s)" "load_str s (Some b) = Ret u" for b u
          proof -
            from that have "Some b \<notin> set (slots s2)" "load_str s2 (Some b) = Ret u"
              using d(2) d(8) fr1 by simp_all
            with keep3 have "load_str s3 (Some b) = Ret u" by blast
            then show ?thesis by (simp add: load_str_heap [OF heap4])
          qed
          from True d(7) fr1 have "history_len s = int M" by simp
          with res inv4 ent4 ent3 d(3) fr1 keep out show ?thesis by simp
        next
          case False
          with d(1) have room2: "history_len s2 < int M" by (simp add: store_inv_iff)
          from \<open>history s1 \<noteq> None\<close> d(6) have h2: "history s2 \<noteq> None" by simp
          from store_step [OF d(1) room2 h2 d(4) d(5)] obtain s4 where
            st: "store_line line s2 = (Ret 1, s4)" and inv4: "store_inv M s4"
            and heap4: "heap s4 = heap s2" and ent4: "entries s4 = entries s2 @ [Ret l]"
            and sl4: "slots s4 = slots s2 @ [Some line]"
            by blast
          have out: "Some b \<notin> set (slots s4)"
            if "Some b \<notin> set (slots s)" "load_str s (Some b) = Ret u" for b u
            using that d(2) fr1(1) below [OF that(2)] line
            by (auto simp: sl4)
          have res: "add_to_history E l s = (Ret 1, s4)"
            using res0 False st by simp
          have keep: "load_str s4 (Some b) = Ret u"
            if "load_str s (Some b) = Ret u" for b u
            using that d(8) fr1 by (simp add: load_str_heap [OF heap4])
          from False d(7) fr1 have "history_len s \<noteq> int M" by simp
          with res inv4 ent4 d(3) fr1 keep out show ?thesis by simp
        qed
      qed
    qed
  qed
qed

lemma record_all_Cons:
  "record_all E (l # ls) s = record_all E ls (snd (add_to_history E l s))"
  by (simp add: record_all_def)

lemma record_all_inv:
  assumes "HISTORY_MAXITEMS E = M" and "0 < M" and "M \<le> 2 ^ 28"
  shows "store_inv M s \<Longrightarrow> store_inv M (record_all E ls s)"
proof (induction ls arbitrary: s)
  case Nil
  then show ?case by (simp add: record_all_def)
next
  case (Cons l ls)
  from add_to_history_step [OF Cons.prems assms, of l]
  have "store_inv M (snd (add_to_history E l s))" by auto
  then show ?case by (simp add: record_all_Cons Cons.IH)
qed

lemma record_all_entries:
  assumes M: "HISTORY_MAXITEMS E = M" and pos: "0 < M" and small: "M \<le> 2 ^ 28"
    and mem: "\<forall>k. \<not> oom E k"
  shows "store_inv M s \<Longrightarrow>
           entries (record_all E ls s) =
             drop (length (entries s) + length ls - M) (entries s @ map Ret ls)"
proof (induction ls arbitrary: s)
  case Nil
  from Nil have "length (entries s) \<le> M"
    by (rule entries_bound)
  then show ?case by (simp add: record_all_def)
next
  case (Cons l ls)
  define s' where "s' = snd (add_to_history E l s)"
  from add_to_history_step [OF Cons.prems M pos small, of l] mem
  have inv': "store_inv M s'"
    and ent': "entries s' =
      (if history_len s = int M then tl (entries s) else entries s) @ [Ret l]"
    by (auto simp: s'_def)
  have len: "length (entries s) = nat (history_len s)" "history_len s \<le> int M"
    "0 \<le> history_len s"
    using Cons.prems entries_length [of M s] by (simp_all add: store_inv_iff)
  have "entries (record_all E (l # ls) s) =
      drop (length (entries s') + length ls - M) (entries s' @ map Ret ls)"
    by (simp add: record_all_Cons s'_def [symmetric] Cons.IH [OF inv'])
  also have "\<dots> = drop (length (entries s) + length (l # ls) - M)
      (entries s @ map Ret (l # ls))"
  proof (cases "history_len s = int M")
    case True
    with len pos have full: "length (entries s) = M" "entries s \<noteq> []" by auto
    then obtain e es where es: "entries s = e # es" by (cases "entries s") auto
    with full show ?thesis by (simp add: ent' True)
  next
    case False
    then show ?thesis by (simp add: ent')
  qed
  finally show ?case .
qed

text \<open>
  Claim C3, for a capacity \<open>HISTORY_MAXITEMS\<close> between 1 and \<open>2 ^ 28\<close> (the byte count
  of the \<open>memmove\<close> fits an int). Every record operation keeps the invariant of the
  history store, so the store never holds more than \<open>HISTORY_MAXITEMS\<close> entries. When no
  allocation fails, a record operation returns 1 and appends the line after the entries
  already there, in order, dropping the oldest one first when the store is full; a run of
  record operations leaves the last \<open>HISTORY_MAXITEMS\<close> of the lines; after
  \<open>HISTORY_MAXITEMS + 1\<close> insertions into the empty store the first line is gone and the
  others are there in order.
\<close>

theorem history_store_fifo:
  assumes "HISTORY_MAXITEMS E = M" and "0 < M" and "M \<le> 2 ^ 28" and "store_inv M s"
  shows "store_inv M (snd (add_to_history E l s))
       \<and> store_inv M (record_all E ls s)
       \<and> length (entries (record_all E ls s)) \<le> M
       \<and> ((\<forall>k. \<not> oom E k) \<longrightarrow>
            fst (add_to_history E l s) = Ret 1
            \<and> entries (snd (add_to_history E l s)) =
                (if history_len s = int M then tl (entries s) else entries s) @ [Ret l]
            \<and> entries (record_all E ls s) =
                drop (length (entries s) + length ls - M) (entries s @ map Ret ls))
       \<and> ((\<forall>k. \<not> oom E k) \<and> length ls = Suc M \<longrightarrow>
            entries (record_all E ls init_shell) = map Ret (tl ls))"
proof -
  from add_to_history_step [OF assms(4,1,2,3), of l]
  have one: "store_inv M (snd (add_to_history E l s))"
    "(\<forall>k. \<not> oom E k) \<longrightarrow>
       fst (add_to_history E l s) = Ret 1
       \<and> entries (snd (add_to_history E l s)) =
           (if history_len s = int M then tl (entries s) else entries s) @ [Ret l]"
    by auto
  have inv: "store_inv M (record_all E ls s)"
    using assms by (rule record_all_inv)
  then have bound: "length (entries (record_all E ls s)) \<le> M"
    by (rule entries_bound)
  have many: "(\<forall>k. \<not> oom E k) \<longrightarrow> entries (record_all E ls s) =
      drop (length (entries s) + length ls - M) (entries s @ map Ret ls)"
    using record_all_entries [OF assms(1,2,3) _ assms(4)] by blast
  have fifo: "(\<forall>k. \<not> oom E k) \<and> length ls = Suc M \<longrightarrow>
      entries (record_all E ls init_shell) = map Ret (tl ls)"
  proof
    assume h: "(\<forall>k. \<not> oom E k) \<and> length ls = Suc M"
    have "entries init_shell = []" by (simp add: entries_def slots_def init_shell_def)
    with record_all_entries [OF assms(1,2,3) _ init_shell_inv, of ls] h
    show "entries (record_all E ls init_shell) = map Ret (tl ls)"
      by (simp add: drop_Suc map_tl)
  qed
  from one inv bound many fifo show ?thesis by blast
qed

theorem history_store_fifo_witness:
  "store_inv 3 init_shell
   \<and> entries (record_all env0 [''echo a'', ''echo b'', ''echo c'', ''echo d''] init_shell) =
       [Ret ''echo b'', Ret ''echo c'', Ret ''echo d'']
   \<and> length (entries (record_all env0 [''echo a'', ''echo b'', ''echo c'', ''echo d'']
        init_shell)) \<le> 3"
proof -
  have M: "HISTORY_MAXITEMS env0 = 3" and mem: "\<forall>k. \<not> oom env0 k"
    by (simp_all add: env0_def)
  have inv: "store_inv 3 init_shell" by (rule init_shell_inv)
  from history_store_fifo [OF M _ _ inv,
      of "''x''" "[''echo a'', ''echo b'', ''echo c'', ''echo d'']"] mem inv
  show ?thesis by simp
qed

section \<open>The dispatcher and the history builtin\<close>

lemma store_nested_reached:
  "record_all env0 [''history 1'', ''ls''] init_shell = store_nested"
  by code_simp

lemma store_a_reached: "snd (add_to_history env0 ''echo a'' init_shell) = store_a"
  by (simp add: add_to_history_def alloc_history_def store_line_def env0_def init_shell_def
      store_a_def strdup_def history_at_def numeral_3_eq_3)

lemma execute_history_undefined:
  "protosh_execute E (''history'' # rest) s = (Fault UndefinedCall, s)"
  by (simp add: protosh_execute_def protosh_num_builtins_def builtin_str_def
      builtin_func_def upt_rec)

text \<open>
  Claim C9. Executing an empty argument list returns 1 and leaves the whole state as it
  was: nothing is written, no process is started, no builtin runs.
\<close>

theorem empty_command_is_noop: "protosh_execute E [] s = (Ret 1, s)"
  by (simp add: protosh_execute_def)

text \<open>
  Claim C7. When the argument of \<open>history\<close> is not \<open>-c\<close> and \<open>strtol\<close> converts
  nothing of it, the builtin writes the parse error to the error stream and returns 1;
  the rest of the state, the store included, is as before, and the result does not depend
  on \<open>exec_commands\<close>: nothing is replayed.
\<close>

theorem history_parse_error:
  assumes "argc cmd > 1" and "cmd ! 1 \<noteq> ''-c''" and "\<not> snd (strtol (cmd ! 1))"
  shows "protosh_history E cmds cmd s =
           (Ret 1, s\<lparr>trace := trace s @ [Err ''error: cannot convert to number\<newline>'']\<rparr>)"
  using assms by (cases "strtol (cmd ! 1)") (simp add: protosh_history_def emit_def)

theorem history_parse_error_witness:
  "protosh_history env0 [[''history'', ''abc'']] [''history'', ''abc''] store_a =
     (Ret 1, store_a\<lparr>trace := [Err ''error: cannot convert to number\<newline>'']\<rparr>)"
  using history_parse_error [of "[''history'', ''abc'']" env0 "[[''history'', ''abc'']]" store_a]
  by (simp add: argc_def strtol_def isspace_def isdigit_def store_a_def init_shell_def)

lemma strtol_wide:
  "strtol ''4294967296'' = (4294967296, True)"
  "strtol ''-4294967296'' = (- 4294967296, True)"
  "strtol ''-5'' = (- 5, True)"
  by (simp_all add: strtol_def isspace_def isdigit_def decimal_def digit_val_def
      LONG_MAX_def LONG_MIN_def)

lemma int_of_long_wide:
  "int_of_long 4294967296 = 0" "int_of_long (- 4294967296) = 0"
  by (simp_all add: int_of_long_def)

lemma int_of_long_id: "- (2 ^ 31) \<le> l \<Longrightarrow> l < 2 ^ 31 \<Longrightarrow> int_of_long l = l"
  by (simp add: int_of_long_def)

text \<open>
  The range check on the values that fit an int: greater than the length is rejected
  with the range error and nothing else changes; equal to the length goes on to the
  replay of \<open>history[N]\<close>.
\<close>

lemma range_check_within_int:
  assumes "argc cmd > 1" and "cmd ! 1 \<noteq> ''-c''" and "strtol (cmd ! 1) = (N, True)"
    and "- (2 ^ 31) \<le> N" and "N < 2 ^ 31"
  shows "(N > history_len s \<longrightarrow>
            protosh_history E cmds cmd s =
              (Ret 1, s\<lparr>trace := trace s @ [Err ''error: offset > number of items\<newline>'']\<rparr>))
       \<and> (N = history_len s \<longrightarrow>
            protosh_history E cmds cmd s = protosh_history_replay E cmds cmd N s)"
  using assms by (simp add: protosh_history_def emit_def int_of_long_id)

text \<open>
  Claim C6 does not hold of the code. The store holds one entry and the argument
  \<open>4294967296\<close> parses to an integer greater than 1, but \<open>(int) loffset\<close> of line 318
  turns it into 0 before the comparison of line 319: no range error is written, entry 0
  is replayed (its one stage is started) and the builtin returns 0.
\<close>

theorem history_offset_truncated:
  "strtol ''4294967296'' = (4294967296, True)
   \<and> history_len store_a < 4294967296
   \<and> protosh_history env_run [[''history'', ''4294967296'']] [''history'', ''4294967296'']
        store_a =
       (Ret 0, store_a\<lparr>heap := [Some ''echo a'', None],
                  trace := [Spawn [''echo'', ''a'']], allocs := 3\<rparr>)"
  by (simp add: strtol_wide int_of_long_wide protosh_history_def argc_def
      protosh_history_replay_def history_at_def load_str_def strdup_def replay_finish_def
      free_def set_replay_context_def reset_replay_context_def emit_def env_run_def env0_def
      store_a_def init_shell_def protosh_TOK_DELIM_def)

text \<open>
  Claim C10, as amended. When \<open>protosh_history\<close> is called with an argument that is not
  \<open>-c\<close> and parses to a negative integer \<open>N\<close> in the range of int, and the length of
  the store is not negative, the conversion to int leaves \<open>N\<close> as it is, the range check
  does not reject it, the array has no slot \<open>N\<close>, and the builtin ends in the
  out-of-range access with the state as it was.
\<close>

theorem history_negative_index:
  assumes "argc cmd > 1" and "cmd ! 1 \<noteq> ''-c''" and "strtol (cmd ! 1) = (N, True)"
    and "- (2 ^ 31) \<le> N" and "N < 0" and "0 \<le> history_len s"
  shows "int_of_long N = N
       \<and> \<not> int_of_long N > history_len s
       \<and> history_at s N = None
       \<and> protosh_history E cmds cmd s = (Fault IndexOutOfRange, s)"
proof -
  from assms(4,5) have conv: "int_of_long N = N" by (simp add: int_of_long_id)
  from assms(5) have none: "history_at s N = None"
    by (simp add: history_at_def split: option.splits)
  from assms(1,2,3,5,6) conv none
  have "protosh_history E cmds cmd s = (Fault IndexOutOfRange, s)"
    by (simp add: protosh_history_def protosh_history_replay_def)
  with conv none assms(5,6) show ?thesis by simp
qed

theorem history_negative_index_witness:
  "protosh_history env0 [[''history'', ''-5'']] [''history'', ''-5''] store_a =
     (Fault IndexOutOfRange, store_a)
   \<and> history_at store_a (- 5) = None"
  using history_negative_index [where cmd = "[''history'', ''-5'']" and N = "- 5"
      and s = store_a and E = env0 and cmds = "[[''history'', ''-5'']]"]
  by (simp add: strtol_wide argc_def store_a_def init_shell_def)

text \<open>
  Claim C10 as stated fails. The argument \<open>-4294967296\<close> is not \<open>-c\<close> and parses to a
  negative integer, but \<open>(int) loffset\<close> turns it into 0: the array is read at index 0,
  not at a negative index, no access is out of range, and entry 0 is replayed.
\<close>

theorem history_negative_wraps_to_zero:
  "strtol ''-4294967296'' = (- 4294967296, True)
   \<and> int_of_long (- 4294967296) = 0
   \<and> history_at store_a (int_of_long (- 4294967296)) = Some (Some 0)
   \<and> protosh_history env_run [[''history'', ''-4294967296'']] [''history'', ''-4294967296'']
        store_a =
       (Ret 0, store_a\<lparr>heap := [Some ''echo a'', None],
                  trace := [Spawn [''echo'', ''a'']], allocs := 3\<rparr>)"
  by (simp add: strtol_wide int_of_long_wide protosh_history_def argc_def
      protosh_history_replay_def history_at_def load_str_def strdup_def replay_finish_def
      free_def set_replay_context_def reset_replay_context_def emit_def env_run_def env0_def
      store_a_def init_shell_def protosh_TOK_DELIM_def)

section \<open>Allocation failure\<close>

lemma exit_codes: "EXIT_SUCCESS \<noteq> EXIT_FAILURE"
  by (simp add: EXIT_SUCCESS_def EXIT_FAILURE_def)

lemma read_loop_alloc:
  "allocs s \<le> allocs (snd (read_loop E inp n buf s))
   \<and> (fst (read_loop E inp n buf s) = Exit EXIT_FAILURE
        \<longleftrightarrow> (\<exists>k. allocs s \<le> k \<and> k < allocs (snd (read_loop E inp n buf s)) \<and> oom E k))"
proof (induction E inp n buf s rule: read_loop.induct)
  case (1 E bufsize buf s)
  show ?case by (simp add: exit_codes)
next
  case (2 E c cs bufsize buf s)
  show ?case
  proof (cases "c \<noteq> CHR 0x0A \<and> Suc (length buf) \<ge> bufsize
      \<and> \<not> int bufsize + int protosh_RL_BUFSIZE > INT_MAX")
    case grow: True
    show ?thesis
    proof (cases "oom E (allocs s)")
      case True
      with grow show ?thesis by (auto simp: emit_def)
    next
      case False
      define t where "t = s\<lparr>allocs := Suc (allocs s)\<rparr>"
      have eq: "read_loop E (c # cs) bufsize buf s =
          read_loop E cs (bufsize + protosh_RL_BUFSIZE) (buf @ [c]) t"
        using grow False by (simp add: t_def)
      from "2.IH"(1) grow False
      have ih: "allocs t \<le> allocs (snd (read_loop E (c # cs) bufsize buf s))"
        "fst (read_loop E (c # cs) bufsize buf s) = Exit EXIT_FAILURE
          \<longleftrightarrow> (\<exists>k. allocs t \<le> k \<and> k < allocs (snd (read_loop E (c # cs) bufsize buf s))
                 \<and> oom E k)"
        unfolding eq t_def by simp_all
      have t: "allocs t = Suc (allocs s)" by (simp add: t_def)
      have "(\<exists>k. Suc (allocs s) \<le> k \<and> k < m \<and> oom E k)
          \<longleftrightarrow> (\<exists>k. allocs s \<le> k \<and> k < m \<and> oom E k)" for m
        using False by (metis Suc_leD Suc_leI le_neq_implies_less)
      with ih t show ?thesis by simp
    qed
  next
    case False
    with "2.IH"(2) show ?thesis by (auto simp: exit_codes)
  qed
qed

lemma skip_first_request:
  "\<not> oom E a \<Longrightarrow>
     (\<exists>k. Suc a \<le> k \<and> k < m \<and> oom E k) \<longleftrightarrow> (\<exists>k. a \<le> k \<and> k < m \<and> oom E k)"
  by (metis Suc_leD Suc_leI le_neq_implies_less)

lemma split_loop_alloc:
  "allocs s \<le> allocs (snd (split_loop E ts n tokens s))
   \<and> (fst (split_loop E ts n tokens s) = Exit EXIT_FAILURE
        \<longleftrightarrow> (\<exists>k. allocs s \<le> k \<and> k < allocs (snd (split_loop E ts n tokens s))
               \<and> oom E k))"
proof (induction E ts n tokens s rule: split_loop.induct)
  case (1 E bufsize tokens s)
  show ?case by simp
next
  case (2 E t ts bufsize tokens s)
  show ?case
  proof (cases "Suc (length tokens) \<ge> bufsize
      \<and> \<not> int bufsize + int protosh_TOK_BUFSIZE > INT_MAX")
    case grow: True
    show ?thesis
    proof (cases "oom E (allocs s)")
      case True
      with grow show ?thesis by (auto simp: emit_def)
    next
      case False
      define u where "u = s\<lparr>allocs := Suc (allocs s)\<rparr>"
      have eq: "split_loop E (t # ts) bufsize tokens s =
          split_loop E ts (bufsize + protosh_TOK_BUFSIZE) (tokens @ [t]) u"
        using grow False by (simp add: u_def)
      from "2.IH"(1) grow False
      have ih: "allocs u \<le> allocs (snd (split_loop E (t # ts) bufsize tokens s))"
        "fst (split_loop E (t # ts) bufsize tokens s) = Exit EXIT_FAILURE
          \<longleftrightarrow> (\<exists>k. allocs u \<le> k
                 \<and> k < allocs (snd (split_loop E (t # ts) bufsize tokens s)) \<and> oom E k)"
        unfolding eq u_def by simp_all
      have u: "allocs u = Suc (allocs s)" by (simp add: u_def)
      from ih u skip_first_request [OF False] show ?thesis by simp
    qed
  next
    case False
    with "2.IH"(2) show ?thesis by auto
  qed
qed

lemma read_line_alloc:
  "fst (protosh_read_line E inp s) = Exit EXIT_FAILURE
     \<longleftrightarrow> (\<exists>k. allocs s \<le> k \<and> k < allocs (snd (protosh_read_line E inp s)) \<and> oom E k)"
proof (cases "oom E (allocs s)")
  case True
  then show ?thesis by (auto simp: protosh_read_line_def emit_def)
next
  case False
  define t where "t = s\<lparr>allocs := Suc (allocs s)\<rparr>"
  have eq: "protosh_read_line E inp s = read_loop E inp protosh_RL_BUFSIZE [] t"
    using False by (simp add: protosh_read_line_def t_def)
  have t: "allocs t = Suc (allocs s)" by (simp add: t_def)
  from read_loop_alloc [of t E inp protosh_RL_BUFSIZE "[]"] skip_first_request [OF False]
  show ?thesis unfolding eq t by simp
qed

lemma split_line_alloc:
  "fst (protosh_split_line E line s) = Exit EXIT_FAILURE
     \<longleftrightarrow> (\<exists>k. allocs s \<le> k \<and> k < allocs (snd (protosh_split_line E line s)) \<and> oom E k)"
proof (cases "oom E (allocs s)")
  case True
  then show ?thesis by (auto simp: protosh_split_line_def emit_def)
next
  case False
  define t where "t = s\<lparr>allocs := Suc (allocs s)\<rparr>"
  have eq: "protosh_split_line E line s =
      split_loop E (strtok_all line []) protosh_TOK_BUFSIZE [] t"
    using False by (simp add: protosh_split_line_def t_def)
  have t: "allocs t = Suc (allocs s)" by (simp add: t_def)
  from split_loop_alloc [of t E "strtok_all line []" protosh_TOK_BUFSIZE "[]"]
    skip_first_request [OF False]
  show ?thesis unfolding eq t by simp
qed

lemma free_result:
  "free p s = (r, s') \<Longrightarrow> allocs s' = allocs s \<and> (\<forall>c. r \<noteq> Exit c)"
  by (auto simp: free_def split: option.splits if_splits)

lemma evict_oldest_result:
  "evict_oldest E s = (r, s') \<Longrightarrow> allocs s' = allocs s \<and> (\<forall>c. r \<noteq> Exit c)"
  by (auto simp: evict_oldest_def split: option.splits prod.splits result.splits if_splits
      dest: free_result)

lemma store_line_result:
  "store_line a s = (r, s') \<Longrightarrow> allocs s' = allocs s \<and> (\<forall>c. r \<noteq> Exit c) \<and> r \<noteq> Ret 0"
  by (auto simp: store_line_def split: option.splits)

lemma add_to_history_alloc:
  "fst (add_to_history E inp s) \<noteq> Exit c
   \<and> (fst (add_to_history E inp s) = Ret 0
        \<longleftrightarrow> (\<exists>k. allocs s \<le> k \<and> k < allocs (snd (add_to_history E inp s)) \<and> oom E k))"
proof -
  define s1 where "s1 = alloc_history E s"
  define after where "after = (\<lambda>line s2.
     (case (if history_len s2 = int (HISTORY_MAXITEMS E)
            then evict_oldest E s2 else (Ret (), s2)) of
        (Ret u, s3) \<Rightarrow> store_line line s3
      | (Exit c, s3) \<Rightarrow> (Exit c, s3)
      | (Fault f, s3) \<Rightarrow> (Fault f, s3)))"
  have unf: "add_to_history E inp s =
      (if history s1 = None then (Ret 0, emit (Err ''error: memory alloc error\<newline>'') s1)
       else (case strdup E inp s1 of
               (None, s2) \<Rightarrow> (Ret 0, s2)
             | (Some line, s2) \<Rightarrow> after line s2))"
    by (simp add: add_to_history_def Let_def s1_def after_def
        split: prod.splits option.splits)
  have after: "allocs (snd (after line s2)) = allocs s2 \<and> fst (after line s2) \<noteq> Exit c
      \<and> fst (after line s2) \<noteq> Ret 0" for line s2
  proof (cases "if history_len s2 = int (HISTORY_MAXITEMS E)
                then evict_oldest E s2 else (Ret (), s2)")
    case (Pair r s3)
    then have r: "allocs s3 = allocs s2 \<and> (\<forall>c. r \<noteq> Exit c)"
      by (auto split: if_splits dest: evict_oldest_result)
    show ?thesis
    proof (cases r)
      case (Ret u)
      obtain r' s4 where st: "store_line line s3 = (r', s4)" by (cases "store_line line s3")
      from store_line_result [OF st] r Pair Ret st show ?thesis
        by (simp add: after_def)
    next
      case (Exit c')
      with r show ?thesis by simp
    next
      case (Fault f)
      with r Pair show ?thesis by (simp add: after_def)
    qed
  qed
  have s1: "history s \<noteq> None \<and> s1 = s
      \<or> history s = None \<and> oom E (allocs s) \<and> history s1 = None
          \<and> allocs s1 = Suc (allocs s)
      \<or> history s = None \<and> \<not> oom E (allocs s) \<and> history s1 \<noteq> None
          \<and> allocs s1 = Suc (allocs s)"
    by (auto simp: s1_def alloc_history_def)
  have dup: "strdup E inp s1 = (None, s1\<lparr>allocs := Suc (allocs s1)\<rparr>) \<and> oom E (allocs s1)
      \<or> (\<exists>line s2. strdup E inp s1 = (Some line, s2) \<and> \<not> oom E (allocs s1)
            \<and> allocs s2 = Suc (allocs s1))"
    by (simp add: strdup_def)
  from s1 show ?thesis
  proof (elim disjE conjE)
    assume h: "history s \<noteq> None" "s1 = s"
    from dup show ?thesis
    proof (elim disjE conjE exE)
      assume "strdup E inp s1 = (None, s1\<lparr>allocs := Suc (allocs s1)\<rparr>)" "oom E (allocs s1)"
      with h show ?thesis by (auto simp: unf)
    next
      fix line s2
      assume d: "strdup E inp s1 = (Some line, s2)" "\<not> oom E (allocs s1)"
        "allocs s2 = Suc (allocs s1)"
      with h have "add_to_history E inp s = after line s2"
        by (auto simp: unf)
      with d h after [of line s2] show ?thesis
        by (auto simp: less_Suc_eq_le)
    qed
  next
    assume h: "history s = None" "oom E (allocs s)" "history s1 = None"
      "allocs s1 = Suc (allocs s)"
    then show ?thesis by (auto simp: unf emit_def)
  next
    assume h: "history s = None" "\<not> oom E (allocs s)" "history s1 \<noteq> None"
      "allocs s1 = Suc (allocs s)"
    from dup show ?thesis
    proof (elim disjE conjE exE)
      assume f: "strdup E inp s1 = (None, s1\<lparr>allocs := Suc (allocs s1)\<rparr>)"
        "oom E (allocs s1)"
      with h have eq: "add_to_history E inp s = (Ret 0, s1\<lparr>allocs := Suc (allocs s1)\<rparr>)"
        by (auto simp: unf)
      from f h have "allocs s \<le> Suc (allocs s) \<and> Suc (allocs s) < Suc (Suc (allocs s))
          \<and> oom E (Suc (allocs s))"
        by simp
      then have "\<exists>k. allocs s \<le> k \<and> k < Suc (Suc (allocs s)) \<and> oom E k" by blast
      with h show ?thesis unfolding eq by simp
    next
      fix line s2
      assume d: "strdup E inp s1 = (Some line, s2)" "\<not> oom E (allocs s1)"
        "allocs s2 = Suc (allocs s1)"
      with h have eq: "add_to_history E inp s = after line s2"
        by (auto simp: unf)
      have "k = allocs s \<or> k = Suc (allocs s)"
        if "allocs s \<le> k" "k < Suc (Suc (allocs s))" for k
        using that by auto
      with d h after [of line s2] show ?thesis
        unfolding eq by auto
    qed
  qed
qed

text \<open>
  Claim C8, as amended. \<open>protosh_read_line\<close> and \<open>protosh_split_line\<close> end the process
  with the failure status exactly when one of the allocation requests they make fails.
  \<open>add_to_history\<close> does not end the process: it returns 0 exactly when one of the
  allocation requests it makes fails.
\<close>

theorem alloc_failure_outcomes:
  "(fst (protosh_read_line E inp s) = Exit EXIT_FAILURE
      \<longleftrightarrow> (\<exists>k. allocs s \<le> k \<and> k < allocs (snd (protosh_read_line E inp s)) \<and> oom E k))
   \<and> (fst (protosh_split_line E line s) = Exit EXIT_FAILURE
      \<longleftrightarrow> (\<exists>k. allocs s \<le> k \<and> k < allocs (snd (protosh_split_line E line s)) \<and> oom E k))
   \<and> (fst (add_to_history E l s) = Ret 0
      \<longleftrightarrow> (\<exists>k. allocs s \<le> k \<and> k < allocs (snd (add_to_history E l s)) \<and> oom E k))
   \<and> fst (add_to_history E l s) \<noteq> Exit c"
  using read_line_alloc [of E inp s] split_line_alloc [of E line s]
    add_to_history_alloc [of E l s c]
  by blast

theorem alloc_failure_outcomes_witness:
  "fst (protosh_read_line env_oom ''ls\<newline>'' init_shell) = Exit EXIT_FAILURE
   \<and> fst (protosh_split_line env_oom ''ls'' init_shell) = Exit EXIT_FAILURE
   \<and> fst (add_to_history env_oom ''ls'' init_shell) = Ret 0"
proof -
  have "oom env_oom 0" by (simp add: env_oom_def)
  moreover have "allocs (snd (protosh_read_line env_oom ''ls\<newline>'' init_shell)) = 1"
    "allocs (snd (protosh_split_line env_oom ''ls'' init_shell)) = 1"
    "allocs (snd (add_to_history env_oom ''ls'' init_shell)) = 1"
    "allocs init_shell = 0"
    by (simp_all add: protosh_read_line_def protosh_split_line_def add_to_history_def
        alloc_history_def env_oom_def env0_def init_shell_def emit_def)
  ultimately show ?thesis
    using alloc_failure_outcomes [of env_oom "''ls\<newline>''" init_shell "''ls''" "''ls''" 0]
    by auto
qed

text \<open>
  Claim C8 as stated fails for the history store: with every allocation failing,
  \<open>add_to_history\<close> returns 0 to its caller, on the first call (the array cannot be
  allocated) and on a later one (the line cannot be duplicated); the process goes on.
\<close>

theorem history_alloc_failure_returns:
  "add_to_history env_oom ''ls'' init_shell =
     (Ret 0, init_shell\<lparr>trace := [Err ''error: memory alloc error\<newline>''], allocs := 1\<rparr>)
   \<and> fst (add_to_history env_oom ''ls'' init_shell) \<noteq> Exit EXIT_FAILURE
   \<and> add_to_history env_oom ''ls'' store_a = (Ret 0, store_a\<lparr>allocs := 3\<rparr>)"
  by (simp add: add_to_history_def alloc_history_def strdup_def env_oom_def env0_def
      init_shell_def store_a_def emit_def)

section \<open>Replay\<close>

lemma clear_loop_keeps:
  "\<lbrakk>history s = Some arr; history_len s = int n; n \<le> length arr; distinct (take n arr);
    0 \<le> i; \<forall>j. nat i \<le> j \<and> j < n \<longrightarrow> live s (arr ! j);
    Some b \<notin> set (take n arr); load_str s (Some b) = Ret u\<rbrakk>
   \<Longrightarrow> \<exists>s'. clear_loop i s = (Ret (), s') \<and> load_str s' (Some b) = Ret u
            \<and> history s' = Some arr \<and> history_len s' = int n"
proof (induction i s rule: clear_loop.induct)
  case (1 i s)
  show ?case
  proof (cases "i < history_len s")
    case False
    with "1.prems"(1,2,8) show ?thesis by (subst clear_loop.simps) simp
  next
    case True
    define k where "k = nat i"
    note p = "1.prems"
    from True p(2,3,5) have k: "i = int k" "k < n" "k < length arr" unfolding k_def by linarith+
    have at: "history_at s i = Some (arr ! k)"
      using p(1) k by (simp add: history_at_def)
    from p(6) k(2) have "live s (arr ! k)" by (simp add: k_def)
    then obtain a where a: "arr ! k = Some a" "a < length (heap s)" "heap s ! a \<noteq> None"
      by (cases "arr ! k") (simp_all add: live_def)
    define s' where "s' = s\<lparr>heap := (heap s)[a := None]\<rparr>"
    have fr: "free (arr ! k) s = (Ret (), s')"
      using a by (simp add: free_def s'_def)
    have mem: "arr ! k \<in> set (take n arr)"
      using k by (auto simp: in_set_conv_nth intro!: exI [of _ k])
    with p(7) a have ba: "b \<noteq> a" by auto
    have ld: "load_str s' (Some c) = load_str s (Some c)" if "c \<noteq> a" for c
      using that by (simp add: load_str_def s'_def)
    have later: "live s' (arr ! j)" if "nat (i + 1) \<le> j \<and> j < n" for j
    proof -
      from that k have j: "k < j" "j < n" by auto
      with p(6) have lj: "live s (arr ! j)" by (simp add: k_def)
      then obtain c where c: "arr ! j = Some c" by (cases "arr ! j") (simp_all add: live_def)
      from j k(2) p(3,4) have "arr ! j \<noteq> arr ! k"
        using nth_eq_iff_index_eq [of "take n arr" j k] by simp
      with c a have "c \<noteq> a" by simp
      with lj c ld show ?thesis by (simp add: live_iff_load)
    qed
    have "\<exists>t. clear_loop (i + 1) s' = (Ret (), t) \<and> load_str t (Some b) = Ret u
        \<and> history t = Some arr \<and> history_len t = int n"
    proof (rule "1.IH" [OF True at fr [symmetric] refl])
      show "history s' = Some arr" "history_len s' = int n"
        using p(1,2) by (simp_all add: s'_def)
      show "n \<le> length arr" "distinct (take n arr)" "Some b \<notin> set (take n arr)"
        using p(3,4,7) by simp_all
      show "0 \<le> i + 1" using p(5) by simp
      show "\<forall>j. nat (i + 1) \<le> j \<and> j < n \<longrightarrow> live s' (arr ! j)"
        using later by blast
      show "load_str s' (Some b) = Ret u" using ld [OF ba] p(8) by simp
    qed
    moreover have "clear_loop i s = clear_loop (i + 1) s'"
      using True at fr by (subst clear_loop.simps) simp
    ultimately show ?thesis by simp
  qed
qed

lemma clear_history_kept:
  assumes "kept M a txt t"
  shows "fst (clear_history t) = Ret 0 \<and> kept M a txt (snd (clear_history t))
       \<and> entries (snd (clear_history t)) = []"
proof (cases "history t")
  case None
  with assms have len: "history_len t = 0" by (simp add: kept_def store_inv_iff)
  then have cl: "clear_loop 0 t = (Ret (), t)" by (subst clear_loop.simps) simp
  have eq: "t\<lparr>history_len := 0\<rparr> = t" using len by simp
  from assms show ?thesis
    by (simp add: clear_history_def cl eq) (simp add: entries_def slots_def None)
next
  case (Some arr)
  define n where "n = nat (history_len t)"
  from assms Some have inv: "history_len t = int n" "n \<le> length arr"
    "distinct (take n arr)" "\<forall>p \<in> set (take n arr). live t p"
    "Some a \<notin> set (take n arr)" "load_str t (Some a) = Ret txt" "length arr = M"
    by (auto simp: kept_def store_inv_iff slots_def n_def)
  have "\<forall>j. nat 0 \<le> j \<and> j < n \<longrightarrow> live t (arr ! j)"
  proof (intro allI impI)
    fix j assume j: "nat 0 \<le> j \<and> j < n"
    with inv(2) have "take n arr ! j \<in> set (take n arr)" by (intro nth_mem) simp
    with j inv(4) show "live t (arr ! j)" by simp
  qed
  from clear_loop_keeps [OF Some inv(1,2,3) order_refl this inv(5,6)]
  obtain t' where t': "clear_loop 0 t = (Ret (), t')" "load_str t' (Some a) = Ret txt"
    "history t' = Some arr" "history_len t' = int n"
    by blast
  define t2 where "t2 = t'\<lparr>history_len := 0\<rparr>"
  have res: "clear_history t = (Ret 0, t2)" by (simp add: clear_history_def t' t2_def)
  have f2: "history t2 = Some arr" "history_len t2 = 0" "heap t2 = heap t'"
    by (simp_all add: t2_def t')
  have sl2: "slots t2 = []" by (simp add: slots_def f2)
  have "store_inv M t2" unfolding store_inv_iff sl2 f2 using inv(7) by simp
  moreover have "load_str t2 (Some a) = Ret txt"
    using t'(2) by (simp add: load_str_heap [OF f2(3)])
  ultimately show ?thesis by (simp add: res kept_def sl2 entries_def)
qed

lemma add_to_history_kept:
  assumes "kept M a txt t" and "HISTORY_MAXITEMS E = M" and "0 < M" and "M \<le> 2 ^ 28"
  shows "kept M a txt (snd (add_to_history E inp t))"
  using add_to_history_step [OF _ assms(2,3,4), of t inp] assms(1)
  by (auto simp: kept_def)

lemma replay_entry:
  assumes inv: "store_inv M s" and idx: "0 \<le> N" "N < history_len s"
    and mem: "\<not> oom E (allocs s)"
  shows "\<exists>txt. entries s ! nat N = Ret txt
          \<and> protosh_history_replay E cmds cmd N s =
              replay_finish (length (heap s))
                (exec_commands E (parse_commands_with_pipes E txt)
                   (set_replay_context cmds cmd (length (heap s)) (snd (strdup E txt s))))
          \<and> kept M (length (heap s)) txt
               (set_replay_context cmds cmd (length (heap s)) (snd (strdup E txt s)))
          \<and> entries (set_replay_context cmds cmd (length (heap s)) (snd (strdup E txt s))) =
               entries s"
proof -
  define k where "k = nat N"
  from inv idx obtain arr where arr: "history s = Some arr" "length arr = M"
    by (cases "history s") (auto simp: store_inv_iff)
  from inv idx have k: "k < nat (history_len s)" "nat (history_len s) \<le> M" "N = int k"
    by (auto simp: k_def store_inv_iff)
  have sl: "slots s = take (nat (history_len s)) arr" by (simp add: slots_def arr)
  have at: "history_at s N = Some (arr ! k)"
    using k arr by (simp add: history_at_def)
  have "arr ! k \<in> set (slots s)"
    using k arr by (auto simp: sl in_set_conv_nth intro!: exI [of _ k])
  with inv have "live s (arr ! k)" by (simp add: store_inv_iff)
  then obtain tx where tx: "load_str s (arr ! k) = Ret tx" by (auto simp: live_iff_load)
  have ent: "entries s ! nat N = Ret tx"
    using k arr tx by (simp add: entries_def sl k_def [symmetric])
  define line where "line = length (heap s)"
  define s1 where "s1 = snd (strdup E tx s)"
  have dup: "strdup E tx s = (Some line, s1)"
    using mem by (simp add: strdup_def line_def s1_def)
  note d = strdup_step [OF inv dup]
  define s2 where "s2 = set_replay_context cmds cmd line s1"
  have fr: "slots s2 = slots s1" "entries s2 = entries s1" "store_inv M s2 = store_inv M s1"
    "load_str s2 p = load_str s1 p" for p
    by (rule store_frame; simp add: s2_def set_replay_context_def)+
  have run: "protosh_history_replay E cmds cmd N s =
      replay_finish line (exec_commands E (parse_commands_with_pipes E tx) s2)"
    by (simp add: protosh_history_replay_def at tx dup s2_def)
  have "kept M line tx s2"
    using d(1,4,5) by (simp add: kept_def fr)
  moreover have "entries s2 = entries s" by (simp add: fr d(3))
  ultimately show ?thesis
    using ent run unfolding s2_def s1_def line_def by blast
qed

text \<open>
  Claim C5, for a capacity between 1 and \<open>2 ^ 28\<close>. A replay at a valid index hands
  \<open>exec_commands\<close> the pipeline parsed from the text that the store holds at that index
  when the builtin is called. The text is in a buffer of its own, allocated by this call
  and pointed to by no slot of the store; the store itself is as before. Clearing the
  store and recording a line (with or without eviction), in any number and order, leave
  that buffer and its text in place.
\<close>

theorem replay_runs_duplicate:
  assumes "HISTORY_MAXITEMS E = M" and "0 < M" and "M \<le> 2 ^ 28" and "store_inv M s"
    and "0 \<le> N" and "N < history_len s"
    and "argc cmd > 1" and "cmd ! 1 \<noteq> ''-c''" and "strtol (cmd ! 1) = (l, True)"
    and "int_of_long l = N" and "\<not> oom E (allocs s)"
  shows "(\<exists>txt. entries s ! nat N = Ret txt
          \<and> protosh_history E cmds cmd s =
              replay_finish (length (heap s))
                (exec_commands E (parse_commands_with_pipes E txt)
                   (set_replay_context cmds cmd (length (heap s)) (snd (strdup E txt s))))
          \<and> kept M (length (heap s)) txt
               (set_replay_context cmds cmd (length (heap s)) (snd (strdup E txt s)))
          \<and> entries (set_replay_context cmds cmd (length (heap s)) (snd (strdup E txt s))) =
               entries s)
       \<and> (\<forall>a txt t inp. kept M a txt t \<longrightarrow>
            fst (clear_history t) = Ret 0
            \<and> kept M a txt (snd (clear_history t))
            \<and> kept M a txt (snd (add_to_history E inp t)))"
proof -
  have "protosh_history E cmds cmd s = protosh_history_replay E cmds cmd N s"
    using assms(6-10) by (simp add: protosh_history_def)
  with replay_entry [OF assms(4,5,6,11), of cmds cmd]
  have first: "\<exists>txt. entries s ! nat N = Ret txt
          \<and> protosh_history E cmds cmd s =
              replay_finish (length (heap s))
                (exec_commands E (parse_commands_with_pipes E txt)
                   (set_replay_context cmds cmd (length (heap s)) (snd (strdup E txt s))))
          \<and> kept M (length (heap s)) txt
               (set_replay_context cmds cmd (length (heap s)) (snd (strdup E txt s)))
          \<and> entries (set_replay_context cmds cmd (length (heap s)) (snd (strdup E txt s))) =
               entries s"
    by simp
  have second: "\<forall>a txt t inp. kept M a txt t \<longrightarrow>
            fst (clear_history t) = Ret 0
            \<and> kept M a txt (snd (clear_history t))
            \<and> kept M a txt (snd (add_to_history E inp t))"
    using clear_history_kept add_to_history_kept [OF _ assms(1,2,3)] by blast
  from first second show ?thesis ..
qed

lemma strtol_digit:
  "strtol ''0'' = (0, True)" "strtol ''1'' = (1, True)" "strtol ''2'' = (2, True)"
  by (simp_all add: strtol_def isspace_def isdigit_def decimal_def digit_val_def
      LONG_MAX_def LONG_MIN_def)

lemma store_a_inv: "store_inv 3 store_a"
  by (simp add: store_inv_def store_a_def init_shell_def slots_def live_def)

theorem replay_runs_duplicate_witness:
  "protosh_history env0 [[''history'', ''0'']] [''history'', ''0''] store_a =
     replay_finish 1
       (exec_commands env0 [[''echo'', ''a'']]
          (set_replay_context [[''history'', ''0'']] [''history'', ''0''] 1
             (snd (strdup env0 ''echo a'' store_a))))
   \<and> kept 3 1 ''echo a''
        (set_replay_context [[''history'', ''0'']] [''history'', ''0''] 1
           (snd (strdup env0 ''echo a'' store_a)))
   \<and> kept 3 1 ''echo a''
        (snd (clear_history
           (set_replay_context [[''history'', ''0'']] [''history'', ''0''] 1
              (snd (strdup env0 ''echo a'' store_a)))))
   \<and> kept 3 1 ''echo a''
        (snd (add_to_history env0 ''ls''
           (set_replay_context [[''history'', ''0'']] [''history'', ''0''] 1
              (snd (strdup env0 ''echo a'' store_a)))))"
proof -
  have M: "HISTORY_MAXITEMS env0 = 3" and mem: "\<not> oom env0 (allocs store_a)"
    by (simp_all add: env0_def)
  have len: "0 < history_len store_a" and hp: "length (heap store_a) = 1"
    and ent: "entries store_a ! nat 0 = Ret ''echo a''"
    by (simp_all add: store_a_def init_shell_def entries_def slots_def load_str_def)
  have args: "argc [''history'', ''0''] > 1" "[''history'', ''0''] ! 1 \<noteq> ''-c''"
    "int_of_long 0 = 0"
    by (simp_all add: argc_def int_of_long_def)
  have parse: "parse_commands_with_pipes env0 ''echo a'' = [[''echo'', ''a'']]"
    by (simp add: env0_def protosh_TOK_DELIM_def)
  note inst = replay_runs_duplicate [where E = env0 and M = 3 and s = store_a and N = 0
      and cmd = "[''history'', ''0'']" and cmds = "[[''history'', ''0'']]" and l = 0]
  from inst M store_a_inv len args mem
  obtain tx where "entries store_a ! nat 0 = Ret tx"
    and run: "protosh_history env0 [[''history'', ''0'']] [''history'', ''0''] store_a =
      replay_finish (length (heap store_a))
        (exec_commands env0 (parse_commands_with_pipes env0 tx)
           (set_replay_context [[''history'', ''0'']] [''history'', ''0'']
              (length (heap store_a)) (snd (strdup env0 tx store_a))))"
    and keep: "kept 3 (length (heap store_a)) tx
       (set_replay_context [[''history'', ''0'']] [''history'', ''0'']
          (length (heap store_a)) (snd (strdup env0 tx store_a)))"
    using strtol_digit(1) by auto
  with ent have tx: "tx = ''echo a''" by simp
  from inst M store_a_inv len args mem strtol_digit(1)
  have later: "\<forall>a txt t inp. kept 3 a txt t \<longrightarrow>
      fst (clear_history t) = Ret 0 \<and> kept 3 a txt (snd (clear_history t))
      \<and> kept 3 a txt (snd (add_to_history env0 inp t))"
    by simp
  from keep tx hp have k1: "kept 3 1 ''echo a''
      (set_replay_context [[''history'', ''0'']] [''history'', ''0''] 1
         (snd (strdup env0 ''echo a'' store_a)))"
    by simp
  with later have "kept 3 1 ''echo a''
        (snd (clear_history
           (set_replay_context [[''history'', ''0'']] [''history'', ''0''] 1
              (snd (strdup env0 ''echo a'' store_a)))))"
    "kept 3 1 ''echo a''
        (snd (add_to_history env0 ''ls''
           (set_replay_context [[''history'', ''0'']] [''history'', ''0''] 1
              (snd (strdup env0 ''echo a'' store_a)))))"
    by blast+
  with run tx hp parse k1 show ?thesis by simp
qed

text \<open>
  Claim C4, as amended. A replay does not save the three context pointers and does not
  restore them. It runs the replayed line in a state where they point to its own command,
  its own pipeline and its own copy of the line, and when the replayed line has run and
  the builtin returns 0, all three are null, whatever they were when the builtin was
  called.
\<close>

theorem replay_context_reset:
  assumes "argc cmd > 1" and "cmd ! 1 \<noteq> ''-c''"
    and "protosh_history E cmds cmd s = (Ret 0, s')"
  shows "parent_cmd s' = None \<and> parent_cmds s' = None \<and> temp_line s' = None
       \<and> (\<exists>tx line t. replay_finish line
               (exec_commands E (parse_commands_with_pipes E tx) t) = (Ret 0, s')
             \<and> parent_cmd t = Some cmd \<and> parent_cmds t = Some cmds
             \<and> temp_line t = Some line)"
proof -
  obtain l conv where st: "strtol (cmd ! 1) = (l, conv)" by (cases "strtol (cmd ! 1)")
  from assms st have conv: "conv" and le: "\<not> int_of_long l > history_len s"
    and rp: "protosh_history_replay E cmds cmd (int_of_long l) s = (Ret 0, s')"
    by (auto simp: protosh_history_def split: if_splits)
  from rp obtain p where at: "history_at s (int_of_long l) = Some p"
    by (cases "history_at s (int_of_long l)") (auto simp: protosh_history_replay_def)
  from rp at obtain tx where tx: "load_str s p = Ret tx"
    by (cases "load_str s p") (auto simp: protosh_history_replay_def)
  obtain q s1 where dup: "strdup E tx s = (q, s1)" by (cases "strdup E tx s")
  from rp at tx dup obtain line where line: "q = Some line"
    by (cases q) (auto simp: protosh_history_replay_def)
  define t where "t = set_replay_context cmds cmd line s1"
  from rp at tx dup line
  have fin: "replay_finish line (exec_commands E (parse_commands_with_pipes E tx) t) =
      (Ret 0, s')"
    by (simp add: protosh_history_replay_def t_def)
  have ctx: "parent_cmd t = Some cmd \<and> parent_cmds t = Some cmds \<and> temp_line t = Some line"
    by (simp add: t_def set_replay_context_def)
  from fin have "parent_cmd s' = None \<and> parent_cmds s' = None \<and> temp_line s' = None"
    by (auto simp: replay_finish_def reset_replay_context_def
        split: prod.splits result.splits)
  with fin ctx show ?thesis by blast
qed

theorem replay_context_reset_witness:
  "parent_cmd (snd (protosh_history env0 [[''history'', ''0'']] [''history'', ''0''] store_a))
     = None
   \<and> parent_cmds (snd (protosh_history env0 [[''history'', ''0'']] [''history'', ''0'']
       store_a)) = None
   \<and> temp_line (snd (protosh_history env0 [[''history'', ''0'']] [''history'', ''0'']
       store_a)) = None"
proof -
  have "fst (protosh_history env0 [[''history'', ''0'']] [''history'', ''0''] store_a) = Ret 0"
    by (simp add: protosh_history_def argc_def strtol_digit int_of_long_def
        protosh_history_replay_def history_at_def load_str_def strdup_def
        replay_finish_def free_def set_replay_context_def env0_def store_a_def init_shell_def)
  then have "protosh_history env0 [[''history'', ''0'']] [''history'', ''0''] store_a =
      (Ret 0, snd (protosh_history env0 [[''history'', ''0'']] [''history'', ''0''] store_a))"
    by (metis prod.collapse)
  from replay_context_reset [OF _ _ this] show ?thesis
    by (simp add: argc_def)
qed

text \<open>
  Claim C4 as stated fails. The parent, \<open>history 0\<close>, replays the line \<open>history 1\<close>:
  its \<open>exec_commands\<close> runs the nested replay in the state \<open>parent_inflight\<close>, where
  the three pointers are the parent's. The nested replay returns 0 and leaves all three
  null: the parent's values are not restored.
\<close>

theorem nested_replay_context_lost:
  "protosh_history env_nested [[''history'', ''0'']] [''history'', ''0''] store_nested =
     replay_finish 2
       (protosh_history env0 [[''history'', ''1'']] [''history'', ''1''] parent_inflight)
   \<and> parent_cmd parent_inflight = Some [''history'', ''0'']
   \<and> parent_cmds parent_inflight = Some [[''history'', ''0'']]
   \<and> temp_line parent_inflight = Some 2
   \<and> fst (protosh_history env0 [[''history'', ''1'']] [''history'', ''1''] parent_inflight)
       = Ret 0
   \<and> parent_cmd (snd (protosh_history env0 [[''history'', ''1'']] [''history'', ''1'']
       parent_inflight)) = None
   \<and> parent_cmds (snd (protosh_history env0 [[''history'', ''1'']] [''history'', ''1'']
       parent_inflight)) = None
   \<and> temp_line (snd (protosh_history env0 [[''history'', ''1'']] [''history'', ''1'']
       parent_inflight)) = None"
proof -
  have outer: "protosh_history env_nested [[''history'', ''0'']] [''history'', ''0'']
      store_nested =
      replay_finish 2
        (protosh_history env0 [[''history'', ''1'']] [''history'', ''1''] parent_inflight)"
    by (simp add: protosh_history_def argc_def strtol_digit int_of_long_def
        protosh_history_replay_def history_at_def load_str_def strdup_def
        parent_inflight_def env_nested_def env0_def store_nested_def init_shell_def
        protosh_TOK_DELIM_def eval_nat_numeral)
  have inner: "protosh_history env0 [[''history'', ''1'']] [''history'', ''1'']
      parent_inflight =
      (Ret 0, reset_replay_context
         (parent_inflight\<lparr>heap := [Some ''history 1'', Some ''ls'', Some ''history 1'', None],
            allocs := 5\<rparr>))"
    by (simp add: protosh_history_def argc_def strtol_digit int_of_long_def
        protosh_history_replay_def history_at_def load_str_def strdup_def
        replay_finish_def free_def set_replay_context_def reset_replay_context_def
        parent_inflight_def env0_def store_nested_def init_shell_def protosh_TOK_DELIM_def)
  have ctx: "parent_cmd parent_inflight = Some [''history'', ''0'']"
    "parent_cmds parent_inflight = Some [[''history'', ''0'']]"
    "temp_line parent_inflight = Some 2"
    by (simp_all add: parent_inflight_def set_replay_context_def strdup_def env0_def
        store_nested_def init_shell_def)
  show ?thesis
    unfolding outer inner
    by (simp add: ctx reset_replay_context_def)
qed

section \<open>The interpreter loop\<close>

text \<open>
  Claim C1 does not hold of the code. \<open>protosh_history\<close> returns 0 after clearing the
  store (line 304) and after a replay (line 348), the value \<open>protosh_exit\<close> returns. It is
  the value on which the loop stops: on the input \<open>exit\<close>, \<open>ls\<close> the loop ends after
  the first line and \<open>ls\<close> is never read. The listing and the two error paths of
  \<open>protosh_history\<close> return 1.
\<close>

theorem history_clear_returns_zero:
  "protosh_history env0 [[''history'', ''-c'']] [''history'', ''-c''] store_a =
     (Ret 0, store_a\<lparr>heap := [None], history_len := 0\<rparr>)
   \<and> protosh_history env0 [[''history'', ''-c'']] [''history'', ''-c''] init_shell =
     (Ret 0, init_shell)
   \<and> fst (protosh_history env0 [[''history'', ''0'']] [''history'', ''0''] store_a) = Ret 0
   \<and> fst (protosh_history env0 [[''history'']] [''history''] store_a) = Ret 1
   \<and> protosh_exit [''exit''] store_a = (Ret 0, store_a)
   \<and> protosh_loop env0 ''exit\<newline>ls\<newline>'' init_shell =
       (Ret (), init_shell\<lparr>trace := [Out ''> ''], allocs := 2\<rparr>)"
  by code_simp

text \<open>
  Claim C2 does not hold of the code. \<open>protosh_loop\<close> never calls \<open>add_to_history\<close>:
  a turn of the loop on the line \<open>ls\<close> starts the program and leaves the store as it
  was, empty when it was empty, and with \<open>echo a\<close> as its last entry when that was
  the last entry.
\<close>

theorem loop_body_does_not_record:
  "protosh_loop_body env0 ''ls\<newline>'' init_shell =
     (Ret (1, []), init_shell\<lparr>trace := [Out ''> '', Spawn [''ls'']], allocs := 2\<rparr>)
   \<and> entries (snd (protosh_loop_body env0 ''ls\<newline>'' init_shell)) = []
   \<and> history_len (snd (protosh_loop_body env0 ''ls\<newline>'' init_shell)) = 0
   \<and> entries (snd (protosh_loop_body env0 ''ls\<newline>'' store_a)) = [Ret ''echo a'']"
  by code_simp

end
